theory Spec2Isabelle
  imports Complex_Main "HOL-Library.Monad_Syntax"
begin

section \<open>Table constants\<close>

text \<open>
  The module constants of \<^verbatim>\<open>main.py\<close>. Python's floats are modelled as the real numbers they
  approximate: rounding, overflow to infinity and NaN are outside the model. Python's
  integers that flow into float arithmetic (\<^verbatim>\<open>WIDTH // 4\<close>) are embedded in the reals.
\<close>

definition WIDTH :: real where "WIDTH = 800"
definition HEIGHT :: real where "HEIGHT = 400"
definition BALL_RADIUS :: real where "BALL_RADIUS = 12"
definition POCKET_RADIUS :: real where "POCKET_RADIUS = 25"
definition FRICTION :: real where "FRICTION = 98 / 100"
definition MAX_SHOTS :: nat where "MAX_SHOTS = 10"

lemmas table_defs = WIDTH_def HEIGHT_def BALL_RADIUS_def POCKET_RADIUS_def FRICTION_def

section \<open>The Ball class\<close>

record Ball =
  x :: real
  y :: real
  vx :: real
  vy :: real
  color :: "nat \<times> nat \<times> nat"
  is_cue :: bool
  is_black :: bool

text \<open>\<^verbatim>\<open>Ball.__init__\<close>: the velocity starts at zero.\<close>

definition new_Ball :: "real \<Rightarrow> real \<Rightarrow> nat \<times> nat \<times> nat \<Rightarrow> bool \<Rightarrow> bool \<Rightarrow> Ball" where
  "new_Ball x0 y0 c cue black =
     \<lparr>x = x0, y = y0, vx = 0, vy = 0, color = c, is_cue = cue, is_black = black\<rparr>"

text \<open>
  \<^verbatim>\<open>Ball.update\<close>, statement by statement: move, apply friction, then the two
  \<^verbatim>\<open>if/elif\<close> chains for the vertical and the horizontal walls.
\<close>

definition move :: "Ball \<Rightarrow> Ball" where
  "move b = b\<lparr>x := x b + vx b, y := y b + vy b\<rparr>"

definition apply_friction :: "Ball \<Rightarrow> Ball" where
  "apply_friction b = b\<lparr>vx := vx b * FRICTION, vy := vy b * FRICTION\<rparr>"

definition reflect_x :: "Ball \<Rightarrow> Ball" where
  "reflect_x b =
     (if x b - BALL_RADIUS < 0 then b\<lparr>x := BALL_RADIUS, vx := - vx b\<rparr>
      else if x b + BALL_RADIUS > WIDTH then b\<lparr>x := WIDTH - BALL_RADIUS, vx := - vx b\<rparr>
      else b)"

definition reflect_y :: "Ball \<Rightarrow> Ball" where
  "reflect_y b =
     (if y b - BALL_RADIUS < 0 then b\<lparr>y := BALL_RADIUS, vy := - vy b\<rparr>
      else if y b + BALL_RADIUS > HEIGHT then b\<lparr>y := HEIGHT - BALL_RADIUS, vy := - vy b\<rparr>
      else b)"

definition update :: "Ball \<Rightarrow> Ball" where
  "update b = reflect_y (reflect_x (apply_friction (move b)))"

definition is_moving :: "Ball \<Rightarrow> bool" where
  "is_moving b = (\<bar>vx b\<bar> > 5 / 100 \<or> \<bar>vy b\<bar> > 5 / 100)"

text \<open>The speed of a ball: the Euclidean norm of its velocity.\<close>

definition speed :: "Ball \<Rightarrow> real" where
  "speed b = sqrt ((vx b)\<^sup>2 + (vy b)\<^sup>2)"

section \<open>Exceptions\<close>

text \<open>
  The exceptions the modelled code can raise. A computation that may raise returns
  \<open>py_error + 'a\<close>, with \<open>Inl\<close> for the exception; \<open>and_then\<close> sequences two of them.
\<close>

datatype py_error =
  ZeroDivisionError | RequestException | JSONDecodeError | KeyError | IndexError
  | TypeError | ValueError

definition and_then :: "py_error + 'a \<Rightarrow> ('a \<Rightarrow> py_error + 'b) \<Rightarrow> py_error + 'b" where
  "and_then m f = (case m of Inl e \<Rightarrow> Inl e | Inr v \<Rightarrow> f v)"

text \<open>Python's float division \<^verbatim>\<open>a / b\<close> raises on a zero divisor.\<close>

definition py_div :: "real \<Rightarrow> real \<Rightarrow> py_error + real" where
  "py_div a b = (if b = 0 then Inl ZeroDivisionError else Inr (a / b))"

text \<open>Python's \<^verbatim>\<open>a % m\<close> on floats, for a positive modulus: the result has the sign of \<open>m\<close>.\<close>

definition py_mod :: "real \<Rightarrow> real \<Rightarrow> real" where
  "py_mod a m = a - m * of_int \<lfloor>a / m\<rfloor>"

section \<open>The shot advisor: call_llm\<close>

subsection \<open>What the advisor can answer\<close>

text \<open>
  The value \<^verbatim>\<open>response.json()\<close> returns. A dictionary is the list of its items (keys
  distinct); text is ASCII.
\<close>

datatype json =
  JNull | JBool bool | JNum real | JStr string | JArr "json list"
  | JObj "(string \<times> json) list"

text \<open>
  The outcome of the HTTP round trip: \<^verbatim>\<open>requests.post\<close> raises (no connection, timeout),
  \<^verbatim>\<open>response.json()\<close> raises (the body is not JSON), or a JSON value arrives.
\<close>

datatype advisor_reply = PostRaises | JsonRaises | Json json

text \<open>\<^verbatim>\<open>v[k]\<close> for a string key, and \<^verbatim>\<open>v[0]\<close>, on a parsed JSON value.\<close>

fun getitem_str :: "json \<Rightarrow> string \<Rightarrow> py_error + json" where
  "getitem_str (JObj kvs) k = (case map_of kvs k of None \<Rightarrow> Inl KeyError | Some v \<Rightarrow> Inr v)"
| "getitem_str _ k = Inl TypeError"

fun getitem_0 :: "json \<Rightarrow> py_error + json" where
  "getitem_0 (JArr []) = Inl IndexError"
| "getitem_0 (JArr (v # _)) = Inr v"
| "getitem_0 (JStr []) = Inl IndexError"
| "getitem_0 (JStr (c # _)) = Inr (JStr [c])"
| "getitem_0 (JObj _) = Inl KeyError"
| "getitem_0 _ = Inl TypeError"

text \<open>\<^verbatim>\<open>result["choices"][0]["message"]["content"]\<close>\<close>

definition get_content :: "json \<Rightarrow> py_error + json" where
  "get_content result =
     and_then (getitem_str result ''choices'') (\<lambda>choices.
     and_then (getitem_0 choices) (\<lambda>choice.
     and_then (getitem_str choice ''message'') (\<lambda>message.
     getitem_str message ''content'')))"

subsection \<open>The regular expression\<close>

text \<open>
  \<^verbatim>\<open>\{\s*"angle_degrees"\s*:\s*([\-\d\.]+)\s*,\s*"power"\s*:\s*([\-\d\.]+)\s*\}\<close>

  Every \<^verbatim>\<open>\s*\<close> is followed by a token that starts with a character that is not white
  space, and each group \<^verbatim>\<open>[\-\d\.]+\<close> by white space, a comma or a brace, none of which
  the group admits. So a match at a position can only take the longest run each time,
  and matching needs no backtracking.
\<close>

definition is_space :: "char \<Rightarrow> bool" where
  "is_space c =
     (c \<in> set [CHR 0x09, CHR 0x0A, CHR 0x0B, CHR 0x0C, CHR 0x0D,
               CHR 0x1C, CHR 0x1D, CHR 0x1E, CHR 0x1F, CHR 0x20])"

definition is_digit :: "char \<Rightarrow> bool" where
  "is_digit c = (c \<in> set ''0123456789'')"

definition is_num_char :: "char \<Rightarrow> bool" where
  "is_num_char c = (c = CHR ''-'' \<or> is_digit c \<or> c = CHR ''.'')"

definition lit :: "string \<Rightarrow> string \<Rightarrow> string option" where
  "lit p s = (if take (length p) s = p then Some (drop (length p) s) else None)"

definition spaces :: "string \<Rightarrow> string" where
  "spaces s = dropWhile is_space s"

definition num_group :: "string \<Rightarrow> (string \<times> string) option" where
  "num_group s =
     (if takeWhile is_num_char s = [] then None
      else Some (takeWhile is_num_char s, dropWhile is_num_char s))"

definition match_at :: "string \<Rightarrow> (string \<times> string) option" where
  \<open>match_at s0 = do {
     s \<leftarrow> lit ''{'' s0;
     s \<leftarrow> lit ''"angle_degrees"'' (spaces s);
     s \<leftarrow> lit '':'' (spaces s);
     (angle_str, s) \<leftarrow> num_group (spaces s);
     s \<leftarrow> lit '','' (spaces s);
     s \<leftarrow> lit ''"power"'' (spaces s);
     s \<leftarrow> lit '':'' (spaces s);
     (power_str, s) \<leftarrow> num_group (spaces s);
     s \<leftarrow> lit ''}'' (spaces s);
     Some (angle_str, power_str)
   }\<close>

text \<open>\<^verbatim>\<open>re.search\<close>: the leftmost position where the pattern matches.\<close>

fun search :: "string \<Rightarrow> (string \<times> string) option" where
  "search [] = match_at []"
| "search (c # cs) = (case match_at (c # cs) of Some g \<Rightarrow> Some g | None \<Rightarrow> search cs)"

text \<open>\<^verbatim>\<open>re.search(pattern, content)\<close> raises when \<^verbatim>\<open>content\<close> is not a string.\<close>

definition re_search :: "json \<Rightarrow> py_error + (string \<times> string) option" where
  "re_search content = (case content of JStr s \<Rightarrow> Inr (search s) | _ \<Rightarrow> Inl TypeError)"

subsection \<open>float()\<close>

text \<open>
  \<^verbatim>\<open>float(s)\<close> on a string of the characters the groups admit (digits, minus, dot): an
  optional minus, then digits with an optional dot, at least one digit in all; anything
  else raises ValueError. The value is the decimal number the string denotes.
\<close>

definition digit_val :: "char \<Rightarrow> nat" where
  "digit_val c = of_char c - 48"

definition digits_val :: "string \<Rightarrow> nat" where
  "digits_val ds = foldl (\<lambda>a c. 10 * a + digit_val c) 0 ds"

definition unsigned_float :: "string \<Rightarrow> py_error + real" where
  "unsigned_float s =
     (let ip = takeWhile is_digit s; r = dropWhile is_digit s in
      case r of
        [] \<Rightarrow> if ip = [] then Inl ValueError else Inr (real (digits_val ip))
      | c # fp \<Rightarrow>
          if c = CHR ''.'' \<and> list_all is_digit fp \<and> (ip \<noteq> [] \<or> fp \<noteq> [])
          then Inr (real (digits_val ip) + real (digits_val fp) / 10 ^ length fp)
          else Inl ValueError)"

definition py_float :: "string \<Rightarrow> py_error + real" where
  "py_float s =
     (case s of
        [] \<Rightarrow> Inl ValueError
      | c # r \<Rightarrow>
          if c = CHR ''-'' then and_then (unsigned_float r) (\<lambda>v. Inr (- v))
          else unsigned_float s)"

subsection \<open>call_llm\<close>

text \<open>
  The body of the \<^verbatim>\<open>try\<close> block. The request is an effect on the advisor only; its answer
  is the argument \<open>reply\<close>.
\<close>

definition call_llm_try :: "advisor_reply \<Rightarrow> real \<Rightarrow> py_error + real \<times> real" where
  "call_llm_try reply fallback_angle =
     (case reply of
        PostRaises \<Rightarrow> Inl RequestException
      | JsonRaises \<Rightarrow> Inl JSONDecodeError
      | Json result \<Rightarrow>
          and_then (get_content result) (\<lambda>content.
          and_then (re_search content) (\<lambda>m.
          case m of
            None \<Rightarrow> Inr (fallback_angle, 8)
          | Some (angle_str, power_str) \<Rightarrow>
              and_then (py_float angle_str) (\<lambda>angle_deg.
              and_then (py_float power_str) (\<lambda>power_val.
              let angle_deg = py_mod angle_deg 360 in
              if \<not> (0 \<le> angle_deg \<and> angle_deg < 360) \<or> \<not> (0 \<le> power_val \<and> power_val \<le> 15)
              then Inr (fallback_angle, 8)
              else Inr (angle_deg, power_val))))))"

text \<open>\<^verbatim>\<open>except Exception\<close>: every exception of the body ends in the fallback.\<close>

definition call_llm :: "advisor_reply \<Rightarrow> real \<Rightarrow> real \<times> real" where
  "call_llm reply fallback_angle =
     (case call_llm_try reply fallback_angle of
        Inl e \<Rightarrow> (fallback_angle, 8)
      | Inr shot \<Rightarrow> shot)"

text \<open>An advisor answer whose message content is the given text.\<close>

definition chat_completion :: "string \<Rightarrow> advisor_reply" where
  "chat_completion content =
     Json (JObj [(''choices'', JArr [JObj [(''message'', JObj [(''content'', JStr content)])]])])"

section \<open>Geometry helpers\<close>

definition hypot :: "real \<Rightarrow> real \<Rightarrow> real" where
  "hypot a b = sqrt (a\<^sup>2 + b\<^sup>2)"

definition distance :: "real \<Rightarrow> real \<Rightarrow> real \<Rightarrow> real \<Rightarrow> real" where
  "distance x1 y1 x2 y2 = hypot (x2 - x1) (y2 - y1)"

text \<open>\<^verbatim>\<open>math.atan2(b, a)\<close> on the reals (no signed zero), \<^verbatim>\<open>math.degrees\<close>, \<^verbatim>\<open>math.radians\<close>.\<close>

definition atan2 :: "real \<Rightarrow> real \<Rightarrow> real" where
  "atan2 b a =
     (if a > 0 then arctan (b / a)
      else if a < 0 then (if b \<ge> 0 then arctan (b / a) + pi else arctan (b / a) - pi)
      else if b > 0 then pi / 2
      else if b < 0 then - pi / 2
      else 0)"

definition degrees :: "real \<Rightarrow> real" where
  "degrees r = r * (180 / pi)"

definition radians :: "real \<Rightarrow> real" where
  "radians d = d * (pi / 180)"

definition angle_degrees :: "real \<Rightarrow> real \<Rightarrow> real \<Rightarrow> real \<Rightarrow> real" where
  "angle_degrees x1 y1 x2 y2 = degrees (atan2 (y2 - y1) (x2 - x1))"

section \<open>Objects and the collision resolver\<close>

text \<open>
  Balls are mutable objects that the list \<^verbatim>\<open>balls\<close> and the variable \<^verbatim>\<open>cue_ball\<close> share. An
  object is a reference (an address); the heap maps each reference to the object's
  current fields. Python compares \<^verbatim>\<open>Ball\<close> objects by identity, which is equality of
  references here.
\<close>

type_synonym ref = nat
type_synonym heap = "ref \<Rightarrow> Ball"

definition set_x :: "ref \<Rightarrow> real \<Rightarrow> heap \<Rightarrow> heap" where
  "set_x r v h = h(r := (h r)\<lparr>x := v\<rparr>)"

definition set_y :: "ref \<Rightarrow> real \<Rightarrow> heap \<Rightarrow> heap" where
  "set_y r v h = h(r := (h r)\<lparr>y := v\<rparr>)"

definition set_vx :: "ref \<Rightarrow> real \<Rightarrow> heap \<Rightarrow> heap" where
  "set_vx r v h = h(r := (h r)\<lparr>vx := v\<rparr>)"

definition set_vy :: "ref \<Rightarrow> real \<Rightarrow> heap \<Rightarrow> heap" where
  "set_vy r v h = h(r := (h r)\<lparr>vy := v\<rparr>)"

text \<open>A \<^verbatim>\<open>for\<close> loop whose body may raise: the first exception ends the loop.\<close>

fun for_each :: "'a list \<Rightarrow> ('a \<Rightarrow> 's \<Rightarrow> py_error + 's) \<Rightarrow> 's \<Rightarrow> py_error + 's" where
  "for_each [] body s = Inr s"
| "for_each (a # as) body s = and_then (body a s) (for_each as body)"

text \<open>
  The body of the inner loop of \<^verbatim>\<open>handle_collisions\<close> for the objects \<open>b1\<close> and \<open>b2\<close>, in
  the two blocks of the source. Every assignment to a field is a heap write, in the order
  of the source; every division by \<^verbatim>\<open>dist\<close> is a \<open>py_div\<close>.

  The four writes that push the two balls apart:
\<close>

definition push_apart :: "ref \<Rightarrow> ref \<Rightarrow> real \<Rightarrow> real \<Rightarrow> heap \<Rightarrow> heap" where
  "push_apart b1 b2 push_x push_y h0 =
     (let h = set_x b1 (x (h0 b1) - push_x) h0;
          h = set_y b1 (y (h b1) - push_y) h;
          h = set_x b2 (x (h b2) + push_x) h;
          h = set_y b2 (y (h b2) + push_y) h
      in h)"

text \<open>The velocity exchange along the normal \<open>(nx, ny)\<close>:\<close>

definition exchange_normal :: "ref \<Rightarrow> ref \<Rightarrow> real \<Rightarrow> real \<Rightarrow> heap \<Rightarrow> heap" where
  "exchange_normal b1 b2 nx ny h0 =
     (let vn1 = vx (h0 b1) * nx + vy (h0 b1) * ny;
          vn2 = vx (h0 b2) * nx + vy (h0 b2) * ny;
          h = set_vx b1 (vx (h0 b1) + (vn2 - vn1) * nx) h0;
          h = set_vy b1 (vy (h b1) + (vn2 - vn1) * ny) h;
          h = set_vx b2 (vx (h b2) + (vn1 - vn2) * nx) h;
          h = set_vy b2 (vy (h b2) + (vn1 - vn2) * ny) h
      in h)"

text \<open>The distance of the centres, with the guard \<^verbatim>\<open>if dist == 0: dist = 0.001\<close>.\<close>

definition guarded_dist :: "real \<Rightarrow> real \<Rightarrow> real" where
  "guarded_dist dx dy = (let dist = hypot dx dy in if dist = 0 then 1 / 1000 else dist)"

definition collide :: "ref \<Rightarrow> ref \<Rightarrow> heap \<Rightarrow> py_error + heap" where
  "collide b1 b2 h0 =
     (let dx = x (h0 b2) - x (h0 b1);
          dy = y (h0 b2) - y (h0 b1);
          dist = guarded_dist dx dy
      in
      if dist < 2 * BALL_RADIUS then
        let overlap = 2 * BALL_RADIUS - dist in
        and_then (py_div dx dist) (\<lambda>qx.
        and_then (py_div dy dist) (\<lambda>qy.
        let h = push_apart b1 b2 (qx * (overlap / 2)) (qy * (overlap / 2)) h0 in
        and_then (py_div dx dist) (\<lambda>nx.
        and_then (py_div dy dist) (\<lambda>ny.
        Inr (exchange_normal b1 b2 nx ny h)))))
      else Inr h0)"

text \<open>
  \<^verbatim>\<open>for i in range(len(balls)): for j in range(i + 1, len(balls)): ...\<close>
\<close>

definition handle_collisions :: "ref list \<Rightarrow> heap \<Rightarrow> py_error + heap" where
  "handle_collisions bs h =
     for_each [0..<length bs]
       (\<lambda>i. for_each [i + 1..<length bs] (\<lambda>j. collide (bs ! i) (bs ! j))) h"

text \<open>Total momentum of a set of objects, per axis.\<close>

definition momentum_x :: "ref set \<Rightarrow> heap \<Rightarrow> real" where
  "momentum_x B h = (\<Sum>b\<in>B. vx (h b))"

definition momentum_y :: "ref set \<Rightarrow> heap \<Rightarrow> real" where
  "momentum_y B h = (\<Sum>b\<in>B. vy (h b))"

section \<open>The session: main\<close>

text \<open>
  The local variables of \<^verbatim>\<open>main\<close> that outlive a frame. \<open>requests\<close> counts the calls of
  \<^verbatim>\<open>call_llm\<close> made so far: it makes the request to the advisor, an effect of the source,
  visible in the state.
\<close>

record session =
  heap :: heap
  balls :: "ref list"
  cue_ball :: ref
  shots_taken :: nat
  game_over :: bool
  win_message :: "string option"
  requests :: nat

definition pockets :: "(real \<times> real) list" where
  "pockets = [(0, 0), (WIDTH, 0), (0, HEIGHT), (WIDTH, HEIGHT)]"

definition WIN :: string where
  "WIN = ''Black ball potted! AI wins!''"

definition LOSE :: string where
  "LOSE = ''No more shots. Black ball remains. AI loses!''"

definition CLEARED :: string where
  "CLEARED = ''All balls cleared or black ball potted earlier.''"

subsection \<open>Steps 1 and 2: positions and collisions\<close>

text \<open>\<^verbatim>\<open>for b in balls: b.update()\<close>\<close>

definition update_all :: "ref list \<Rightarrow> heap \<Rightarrow> heap" where
  "update_all bs h = fold (\<lambda>b h. h(b := update (h b))) bs h"

subsection \<open>Step 3: pockets\<close>

text \<open>\<^verbatim>\<open>WIDTH // 4\<close> and \<^verbatim>\<open>HEIGHT // 2\<close>: integer division.\<close>

definition RESTART_X :: real where
  "RESTART_X = of_int \<lfloor>WIDTH / 4\<rfloor>"

definition RESTART_Y :: real where
  "RESTART_Y = of_int \<lfloor>HEIGHT / 2\<rfloor>"

text \<open>\<^verbatim>\<open>distance(b.x, b.y, px, py) < POCKET_RADIUS\<close>\<close>

definition in_pocket :: "Ball \<Rightarrow> real \<times> real \<Rightarrow> bool" where
  "in_pocket b p = (distance (x b) (y b) (fst p) (snd p) < POCKET_RADIUS)"

text \<open>
  The body of the loop over the pockets for the object \<open>b\<close>; the loop state is the session
  and the list \<^verbatim>\<open>removed_balls\<close>. No branch leaves the loops.
\<close>

definition check_pocket :: "ref \<Rightarrow> real \<times> real \<Rightarrow> session \<times> ref list \<Rightarrow> session \<times> ref list" where
  "check_pocket b p = (\<lambda>(s, removed_balls).
     if in_pocket (heap s b) p then
       if is_black (heap s b) then (s\<lparr>game_over := True, win_message := Some WIN\<rparr>, removed_balls)
       else if is_cue (heap s b) then
         (s\<lparr>heap := (heap s)(b := (heap s b)\<lparr>x := RESTART_X, y := RESTART_Y, vx := 0, vy := 0\<rparr>)\<rparr>,
          removed_balls)
       else (s, removed_balls @ [b])
     else (s, removed_balls))"

definition check_pockets :: "session \<Rightarrow> session \<times> ref list" where
  "check_pockets s = fold (\<lambda>b. fold (check_pocket b) pockets) (balls s) (s, [])"

text \<open>\<^verbatim>\<open>for rb in removed_balls: if rb in balls: balls.remove(rb)\<close>\<close>

definition remove_balls :: "ref list \<Rightarrow> ref list \<Rightarrow> ref list" where
  "remove_balls removed_balls bs =
     fold (\<lambda>rb bs. if rb \<in> set bs then remove1 rb bs else bs) removed_balls bs"

definition pocket_step :: "session \<Rightarrow> session" where
  "pocket_step s =
     (let (s', removed_balls) = check_pockets s
      in s'\<lparr>balls := remove_balls removed_balls (balls s')\<rparr>)"

subsection \<open>Step 4: the next shot, or the end of the game\<close>

text \<open>
  The search for the ball closest to the cue ball. \<open>None\<close> as a distance is
  \<^verbatim>\<open>float('inf')\<close>, which every distance is below.
\<close>

definition closer :: "heap \<Rightarrow> ref \<Rightarrow> ref \<Rightarrow> real option \<times> ref option \<Rightarrow> real option \<times> ref option" where
  "closer h cue b = (\<lambda>(dist_closest, closest_ball).
     if \<not> is_cue (h b) then
       let d = distance (x (h cue)) (y (h cue)) (x (h b)) (y (h b)) in
       if (case dist_closest of None \<Rightarrow> True | Some dc \<Rightarrow> d < dc) then (Some d, Some b)
       else (dist_closest, closest_ball)
     else (dist_closest, closest_ball))"

definition closest_ball :: "session \<Rightarrow> ref option" where
  "closest_ball s = snd (fold (closer (heap s) (cue_ball s)) (balls s) (None, None))"

definition fallback_angle :: "session \<Rightarrow> real" where
  "fallback_angle s =
     (case closest_ball s of
        Some c \<Rightarrow>
          angle_degrees (x (heap s (cue_ball s))) (y (heap s (cue_ball s)))
            (x (heap s c)) (y (heap s c))
      | None \<Rightarrow> 0)"

text \<open>The distance of a ball from the cue ball, as the search computes it.\<close>

definition cue_dist :: "session \<Rightarrow> ref \<Rightarrow> real" where
  "cue_dist s b =
     distance (x (heap s (cue_ball s))) (y (heap s (cue_ball s))) (x (heap s b)) (y (heap s b))"

text \<open>\<^verbatim>\<open>cue_ball.vx = math.cos(rad) * power_val; cue_ball.vy = math.sin(rad) * power_val\<close>\<close>

definition apply_shot :: "real \<times> real \<Rightarrow> ref \<Rightarrow> heap \<Rightarrow> heap" where
  "apply_shot shot cue h =
     (let (angle_deg, power_val) = shot;
          rad = radians angle_deg;
          h = set_vx cue (cos rad * power_val) h;
          h = set_vy cue (sin rad * power_val) h
      in h)"

text \<open>
  The branch that takes a shot. The prompt text is built from the state without changing
  it and goes to the advisor only; \<open>reply\<close> is what the advisor answers.
\<close>

definition take_shot :: "advisor_reply \<Rightarrow> session \<Rightarrow> session" where
  "take_shot reply s0 =
     (let s = s0\<lparr>shots_taken := shots_taken s0 + 1\<rparr>;
          shot = call_llm reply (fallback_angle s);
          s = s\<lparr>requests := requests s + 1\<rparr>
      in s\<lparr>heap := apply_shot shot (cue_ball s) (heap s)\<rparr>)"

text \<open>
  The branch that ends the game. \<^verbatim>\<open>not win_message\<close> holds for \<^verbatim>\<open>None\<close> and for the empty
  string.
\<close>

definition finish :: "session \<Rightarrow> session" where
  "finish s0 =
     (if \<not> game_over s0 then
        let s = s0\<lparr>game_over := True\<rparr> in
        if win_message s = None \<or> win_message s = Some [] then
          if list_ex (\<lambda>b. is_black (heap s b)) (balls s) then s\<lparr>win_message := Some LOSE\<rparr>
          else s\<lparr>win_message := Some CLEARED\<rparr>
        else s
      else s0)"

definition at_rest :: "session \<Rightarrow> bool" where
  "at_rest s = (\<not> list_ex (\<lambda>b. is_moving (heap s b)) (balls s))"

definition turn :: "advisor_reply \<Rightarrow> session \<Rightarrow> session" where
  "turn reply s =
     (if at_rest s then
        if shots_taken s < MAX_SHOTS \<and> \<not> game_over s then take_shot reply s
        else finish s
      else s)"

subsection \<open>One frame, and a run of frames\<close>

definition physics :: "session \<Rightarrow> py_error + session" where
  "physics s =
     (let h = update_all (balls s) (heap s) in
      and_then (handle_collisions (balls s) h) (\<lambda>h.
      Inr (pocket_step (s\<lparr>heap := h\<rparr>))))"

text \<open>
  One iteration of \<^verbatim>\<open>while True\<close> without the drawing. \<open>Inl\<close> is an exception that leaves
  \<^verbatim>\<open>main\<close>.
\<close>

definition tick :: "advisor_reply \<Rightarrow> session \<Rightarrow> py_error + session" where
  "tick reply s =
     (if \<not> game_over s then and_then (physics s) (\<lambda>s. Inr (turn reply s))
      else Inr s)"

text \<open>
  Frames in sequence; \<open>advisor n\<close> is the advisor's answer to the request made when \<open>n\<close>
  shots had been taken.
\<close>

fun run :: "(nat \<Rightarrow> advisor_reply) \<Rightarrow> nat \<Rightarrow> session \<Rightarrow> py_error + session" where
  "run advisor 0 s = Inr s"
| "run advisor (Suc n) s = and_then (tick (advisor (shots_taken s)) s) (run advisor n)"

subsection \<open>The start of main\<close>

text \<open>
  The objects \<^verbatim>\<open>main\<close> creates: the cue ball (reference 0), the black ball (1) and five
  coloured balls (2 to 6), the \<open>i\<close>-th at the random offsets \<open>rnd i\<close>, each drawn from
  \<^verbatim>\<open>random.randint(-40, 40)\<close>.
\<close>

definition colors :: "(nat \<times> nat \<times> nat) list" where
  "colors = [(220, 20, 60), (30, 144, 255), (255, 215, 0), (255, 0, 255), (0, 255, 255)]"

definition main_heap :: "(nat \<Rightarrow> int \<times> int) \<Rightarrow> heap" where
  "main_heap rnd r =
     (if r = 0 then new_Ball 200 200 (255, 255, 255) True False
      else if r = 1 then new_Ball 600 200 (0, 0, 0) False True
      else new_Ball (600 + real_of_int (fst (rnd (r - 2)))) (200 + real_of_int (snd (rnd (r - 2))))
             (colors ! (r - 2)) False False)"

definition main_init :: "(nat \<Rightarrow> int \<times> int) \<Rightarrow> session" where
  "main_init rnd =
     \<lparr>heap = main_heap rnd, balls = [0, 1] @ [2..<7], cue_ball = 0, shots_taken = 0,
      game_over = False, win_message = None, requests = 0\<rparr>"

text \<open>The states \<^verbatim>\<open>main\<close> can be in at the start of a frame.\<close>

inductive reachable :: "session \<Rightarrow> bool" where
  init: "reachable (main_init rnd)"
| frame: "reachable s \<Longrightarrow> tick reply s = Inr s' \<Longrightarrow> reachable s'"

section \<open>Vocabulary for the pocket check\<close>

text \<open>
  A ball is potted when its centre is within the capture radius of some pocket. Which of
  the three branches of the pocket check a potted ball takes follows the order of the
  tests in the source: black first, then cue, then any other ball. \<open>restart\<close> is the
  foul's effect on the cue ball.
\<close>

definition potted :: "Ball \<Rightarrow> bool" where
  "potted b = list_ex (in_pocket b) pockets"

definition restart :: "Ball \<Rightarrow> Ball" where
  "restart b = b\<lparr>x := RESTART_X, y := RESTART_Y, vx := 0, vy := 0\<rparr>"

definition potted_black :: "Ball \<Rightarrow> bool" where
  "potted_black b = (is_black b \<and> potted b)"

definition potted_cue :: "Ball \<Rightarrow> bool" where
  "potted_cue b = (\<not> is_black b \<and> is_cue b \<and> potted b)"

definition potted_object :: "Ball \<Rightarrow> bool" where
  "potted_object b = (\<not> is_black b \<and> \<not> is_cue b \<and> potted b)"

section \<open>The validation contract, as the specification words it\<close>

text \<open>
  The specification's contract for the advisor's answer, to compare \<open>call_llm\<close> with. The
  answer parses when it carries a message text in which the pattern is found and both
  groups denote numbers.
\<close>

definition parsed_shot :: "advisor_reply \<Rightarrow> (real \<times> real) option" where
  "parsed_shot reply =
     (case reply of
        Json result \<Rightarrow>
          (case get_content result of
             Inr (JStr text) \<Rightarrow>
               (case search text of
                  Some (angle_str, power_str) \<Rightarrow>
                    (case (py_float angle_str, py_float power_str) of
                       (Inr a, Inr p) \<Rightarrow> Some (a, p)
                     | _ \<Rightarrow> None)
                | None \<Rightarrow> None)
           | _ \<Rightarrow> None)
      | _ \<Rightarrow> None)"

text \<open>
  The parsed pair with the angle normalized modulo 360 when it is in range, the fallback
  in every other case.
\<close>

definition validated_shot :: "advisor_reply \<Rightarrow> real \<Rightarrow> real \<times> real" where
  "validated_shot reply fb =
     (case parsed_shot reply of
        Some (a, p) \<Rightarrow>
          if 0 \<le> py_mod a 360 \<and> py_mod a 360 < 360 \<and> 0 \<le> p \<and> p \<le> 15
          then (py_mod a 360, p)
          else (fb, 8)
      | None \<Rightarrow> (fb, 8))"

section \<open>Example sessions\<close>

text \<open>
  A session in which, after the physics of a frame, three balls lie within the capture
  radius of a pocket: the cue ball (object 0) at the lower left pocket, the black ball
  (object 1) at the upper left one and a red ball (object 2) at the upper right one.
\<close>

definition pot_example :: session where
  "pot_example =
     \<lparr>heap = (\<lambda>r. if r = 0 then new_Ball 12 388 (255, 255, 255) True False
                  else if r = 1 then new_Ball 12 12 (0, 0, 0) False True
                  else new_Ball 788 12 (220, 20, 60) False False),
      balls = [0, 1, 2], cue_ball = 0, shots_taken = 3,
      game_over = False, win_message = None, requests = 3\<rparr>"

text \<open>
  A session in which nothing moves: the start of \<^verbatim>\<open>main\<close> with the coloured balls at the
  offsets \<open>still_offsets\<close>, after \<open>k\<close> shots of power zero. \<open>quiet\<close> describes such states:
  distinct balls at rest within the walls, none potted, no two of them overlapping.
\<close>

definition still_offsets :: "nat \<Rightarrow> int \<times> int" where
  "still_offsets i =
     (if i = 0 then (- 40, - 40) else if i = 1 then (40, - 40) else if i = 2 then (- 40, 40)
      else if i = 3 then (40, 40) else (0, 40))"

definition still_session :: "nat \<Rightarrow> session" where
  "still_session k = (main_init still_offsets)\<lparr>shots_taken := k, requests := k\<rparr>"

definition zero_power_reply :: advisor_reply where
  \<open>zero_power_reply = chat_completion ''{"angle_degrees": 0, "power": 0}''\<close>

definition quiet :: "session \<Rightarrow> bool" where
  "quiet s =
     (distinct (balls s)
      \<and> (\<forall>b\<in>set (balls s). vx (heap s b) = 0 \<and> vy (heap s b) = 0
            \<and> BALL_RADIUS \<le> x (heap s b) \<and> x (heap s b) \<le> WIDTH - BALL_RADIUS
            \<and> BALL_RADIUS \<le> y (heap s b) \<and> y (heap s b) \<le> HEIGHT - BALL_RADIUS
            \<and> \<not> potted (heap s b))
      \<and> (\<forall>b1\<in>set (balls s). \<forall>b2\<in>set (balls s). b1 \<noteq> b2 \<longrightarrow>
            576 \<le> (x (heap s b2) - x (heap s b1))\<^sup>2 + (y (heap s b2) - y (heap s b1))\<^sup>2))"

section \<open>The invariant of the session\<close>

text \<open>
  Every shot taken is one request to the advisor, the shot counter never passes
  \<open>MAX_SHOTS\<close>, and an outcome message exists only once the game is over.
\<close>

definition session_inv :: "session \<Rightarrow> bool" where
  "session_inv s =
     (requests s = shots_taken s \<and> shots_taken s \<le> MAX_SHOTS
      \<and> (if game_over s then True else win_message s = None))"

section \<open>Ball.update: walls and friction\<close>

lemma update_x:
  "x (update b) =
     (if x b + vx b - BALL_RADIUS < 0 then BALL_RADIUS
      else if x b + vx b + BALL_RADIUS > WIDTH then WIDTH - BALL_RADIUS
      else x b + vx b)"
  by (simp add: update_def reflect_y_def reflect_x_def apply_friction_def move_def)

lemma update_y:
  "y (update b) =
     (if y b + vy b - BALL_RADIUS < 0 then BALL_RADIUS
      else if y b + vy b + BALL_RADIUS > HEIGHT then HEIGHT - BALL_RADIUS
      else y b + vy b)"
  by (simp add: update_def reflect_y_def reflect_x_def apply_friction_def move_def)

lemma update_vx:
  "vx (update b) =
     (if x b + vx b - BALL_RADIUS < 0 \<or> x b + vx b + BALL_RADIUS > WIDTH
      then - (vx b * FRICTION) else vx b * FRICTION)"
  by (simp add: update_def reflect_y_def reflect_x_def apply_friction_def move_def)

lemma update_vy:
  "vy (update b) =
     (if y b + vy b - BALL_RADIUS < 0 \<or> y b + vy b + BALL_RADIUS > HEIGHT
      then - (vy b * FRICTION) else vy b * FRICTION)"
  by (simp add: update_def reflect_y_def reflect_x_def apply_friction_def move_def)

lemma update_kind:
  "is_cue (update b) = is_cue b" "is_black (update b) = is_black b" "color (update b) = color b"
  by (simp_all add: update_def reflect_y_def reflect_x_def apply_friction_def move_def)

lemma abs_vx_update: "\<bar>vx (update b)\<bar> = \<bar>vx b\<bar> * FRICTION"
  by (simp add: update_vx abs_mult FRICTION_def)

lemma abs_vy_update: "\<bar>vy (update b)\<bar> = \<bar>vy b\<bar> * FRICTION"
  by (simp add: update_vy abs_mult FRICTION_def)

lemma abs_vx_ticks: "\<bar>vx ((update ^^ n) b)\<bar> = \<bar>vx b\<bar> * FRICTION ^ n"
  by (induction n) (simp_all add: abs_vx_update)

lemma abs_vy_ticks: "\<bar>vy ((update ^^ n) b)\<bar> = \<bar>vy b\<bar> * FRICTION ^ n"
  by (induction n) (simp_all add: abs_vy_update)

lemma speed_ticks: "speed ((update ^^ n) b) = speed b * FRICTION ^ n"
proof -
  have f: "0 \<le> FRICTION ^ n"
    by (simp add: FRICTION_def)
  have "(vx ((update ^^ n) b))\<^sup>2 = (\<bar>vx b\<bar> * FRICTION ^ n)\<^sup>2"
    using abs_vx_ticks [of n b] by (metis power2_abs)
  moreover have "(vy ((update ^^ n) b))\<^sup>2 = (\<bar>vy b\<bar> * FRICTION ^ n)\<^sup>2"
    using abs_vy_ticks [of n b] by (metis power2_abs)
  ultimately have "(vx ((update ^^ n) b))\<^sup>2 + (vy ((update ^^ n) b))\<^sup>2
      = ((vx b)\<^sup>2 + (vy b)\<^sup>2) * (FRICTION ^ n)\<^sup>2"
    by (simp add: power_mult_distrib algebra_simps)
  then show ?thesis
    using f by (simp add: speed_def real_sqrt_mult)
qed

lemma friction_power_small:
  assumes "0 < e"
  shows "\<exists>n. \<forall>m\<ge>n. c * FRICTION ^ m \<le> (e::real)"
proof (cases "c \<le> 0")
  case True
  have "c * FRICTION ^ m \<le> e" for m
  proof -
    have "c * FRICTION ^ m \<le> 0"
      using True by (simp add: mult_le_0_iff FRICTION_def)
    then show ?thesis using assms by linarith
  qed
  then show ?thesis by blast
next
  case False
  then have c: "0 < c" by simp
  have "0 < e / c" using assms c by simp
  then obtain n where n: "FRICTION ^ n < e / c"
    using real_arch_pow_inv [of "e / c" FRICTION] by (auto simp: FRICTION_def)
  have "c * FRICTION ^ m \<le> e" if "n \<le> m" for m
  proof -
    have "FRICTION ^ m \<le> FRICTION ^ n"
      using that by (intro power_decreasing) (simp_all add: FRICTION_def)
    then have "FRICTION ^ m < e / c" using n by linarith
    then have "FRICTION ^ m * c < e" using c by (simp add: pos_less_divide_eq)
    then show ?thesis by (simp add: mult.commute)
  qed
  then show ?thesis by blast
qed

lemma eventually_resting: "\<exists>n. \<forall>m\<ge>n. \<not> is_moving ((update ^^ m) b)"
proof -
  obtain n1 where n1: "\<forall>m\<ge>n1. \<bar>vx b\<bar> * FRICTION ^ m \<le> 5 / 100"
    using friction_power_small [of "5 / 100" "\<bar>vx b\<bar>"] by auto
  obtain n2 where n2: "\<forall>m\<ge>n2. \<bar>vy b\<bar> * FRICTION ^ m \<le> 5 / 100"
    using friction_power_small [of "5 / 100" "\<bar>vy b\<bar>"] by auto
  have "\<not> is_moving ((update ^^ m) b)" if "max n1 n2 \<le> m" for m
    using that n1 n2 by (simp add: is_moving_def abs_vx_ticks abs_vy_ticks not_less)
  then show ?thesis by blast
qed

text \<open>
  Claim C5. After every call of \<^verbatim>\<open>Ball.update\<close> the position lies within the walls:
  \<open>BALL_RADIUS \<le> x \<le> WIDTH - BALL_RADIUS\<close> and \<open>BALL_RADIUS \<le> y \<le> HEIGHT - BALL_RADIUS\<close>,
  whatever the position and the velocity were before. On each axis, independently of the
  other, a position that crossed a wall is set to the value at that wall and the
  velocity component of that axis (already scaled by the friction) is negated; otherwise
  the position is the moved one and the component keeps its sign.
\<close>

theorem update_wall_containment:
  "BALL_RADIUS \<le> x (update b) \<and> x (update b) \<le> WIDTH - BALL_RADIUS
   \<and> BALL_RADIUS \<le> y (update b) \<and> y (update b) \<le> HEIGHT - BALL_RADIUS
   \<and> x (update b) =
       (if x b + vx b - BALL_RADIUS < 0 then BALL_RADIUS
        else if x b + vx b + BALL_RADIUS > WIDTH then WIDTH - BALL_RADIUS
        else x b + vx b)
   \<and> vx (update b) =
       (if x b + vx b - BALL_RADIUS < 0 \<or> x b + vx b + BALL_RADIUS > WIDTH
        then - (vx b * FRICTION) else vx b * FRICTION)
   \<and> y (update b) =
       (if y b + vy b - BALL_RADIUS < 0 then BALL_RADIUS
        else if y b + vy b + BALL_RADIUS > HEIGHT then HEIGHT - BALL_RADIUS
        else y b + vy b)
   \<and> vy (update b) =
       (if y b + vy b - BALL_RADIUS < 0 \<or> y b + vy b + BALL_RADIUS > HEIGHT
        then - (vy b * FRICTION) else vy b * FRICTION)"
proof -
  have bx: "BALL_RADIUS \<le> x (update b) \<and> x (update b) \<le> WIDTH - BALL_RADIUS"
    unfolding update_x by (simp add: table_defs)
  have by': "BALL_RADIUS \<le> y (update b) \<and> y (update b) \<le> HEIGHT - BALL_RADIUS"
    unfolding update_y by (simp add: table_defs)
  show ?thesis
    using bx by' update_x [of b] update_y [of b] update_vx [of b] update_vy [of b]
    by blast
qed

text \<open>
  Claim C7. The speed (the magnitude of the velocity) of a ball after \<open>n\<close> calls of
  \<^verbatim>\<open>Ball.update\<close>, with no collision in between, is its initial speed times
  \<open>FRICTION ^ n\<close>, where \<open>FRICTION = 0.98\<close>. A wall reflection only flips the sign of a
  component, so the equation holds with and without reflections. From every initial
  velocity, after finitely many calls the ball is not moving: both components are at or
  below the threshold 0.05 in magnitude.
\<close>

theorem friction_decay:
  "FRICTION = 98 / 100
   \<and> speed ((update ^^ n) b) = speed b * FRICTION ^ n
   \<and> (\<exists>k. \<not> is_moving ((update ^^ k) b)
          \<and> \<bar>vx ((update ^^ k) b)\<bar> \<le> 5 / 100 \<and> \<bar>vy ((update ^^ k) b)\<bar> \<le> 5 / 100)"
proof -
  obtain k where k: "\<forall>m\<ge>k. \<not> is_moving ((update ^^ m) b)"
    using eventually_resting [of b] by blast
  then have "\<not> is_moving ((update ^^ k) b)" by simp
  then have "\<not> is_moving ((update ^^ k) b)
      \<and> \<bar>vx ((update ^^ k) b)\<bar> \<le> 5 / 100 \<and> \<bar>vy ((update ^^ k) b)\<bar> \<le> 5 / 100"
    by (simp add: is_moving_def not_less)
  then show ?thesis
    using speed_ticks [of n b] by (auto simp: FRICTION_def)
qed

section \<open>The shot advisor\<close>

lemma call_llm_validated: "call_llm reply fb = validated_shot reply fb"
  by (auto simp: call_llm_def call_llm_try_def validated_shot_def parsed_shot_def and_then_def
      re_search_def Let_def
      split: advisor_reply.splits sum.splits json.splits option.splits prod.splits)

lemma call_llm_transport: "call_llm PostRaises fb = (fb, 8)" "call_llm JsonRaises fb = (fb, 8)"
  by (simp_all add: call_llm_def call_llm_try_def)

lemma call_llm_400: \<open>call_llm (chat_completion ''{"angle_degrees": 400, "power": 5}'') fb = (40, 5)\<close>
  by (simp add: call_llm_def call_llm_try_def chat_completion_def get_content_def and_then_def
      re_search_def match_at_def lit_def spaces_def num_group_def is_space_def is_num_char_def
      is_digit_def py_float_def unsigned_float_def digits_val_def digit_val_def py_mod_def)

text \<open>
  Over the reals the normalized angle is always in range, so only the power can be out of
  it. With floats the test on the angle can fail (a tiny negative angle is rounded to
  360.0, an infinite one gives NaN); the source then returns the fallback.
\<close>

lemma py_mod_360: "0 \<le> py_mod a 360 \<and> py_mod a 360 < 360"
proof -
  have "of_int \<lfloor>a / 360\<rfloor> \<le> a / 360" "a / 360 < of_int \<lfloor>a / 360\<rfloor> + 1"
    by linarith+
  then show ?thesis unfolding py_mod_def by (simp add: field_simps)
qed

lemma call_llm_power: "0 \<le> snd (call_llm reply fb) \<and> snd (call_llm reply fb) \<le> 15"
  by (auto simp: call_llm_validated validated_shot_def split: option.splits)

lemma shot_norm: "(cos r * p)\<^sup>2 + (sin r * p)\<^sup>2 = (p::real)\<^sup>2"
proof -
  have "(cos r * p)\<^sup>2 + (sin r * p)\<^sup>2 = p\<^sup>2 * ((cos r)\<^sup>2 + (sin r)\<^sup>2)"
    by (simp only: power_mult_distrib distrib_left mult.commute)
  then show ?thesis by simp
qed

lemma apply_shot_cue:
  "vx (apply_shot (a, p) cue h cue) = cos (radians a) * p"
  "vy (apply_shot (a, p) cue h cue) = sin (radians a) * p"
  "speed (apply_shot (a, p) cue h cue) = \<bar>p\<bar>"
  by (simp_all add: apply_shot_def speed_def set_vx_def set_vy_def shot_norm Let_def)

lemma fallback_angle_shots: "fallback_angle (s\<lparr>shots_taken := n\<rparr>) = fallback_angle s"
  by (simp add: fallback_angle_def closest_ball_def split: option.splits)

lemma take_shot_heap:
  "heap (take_shot reply s) = apply_shot (call_llm reply (fallback_angle s)) (cue_ball s) (heap s)"
  by (simp add: take_shot_def Let_def fallback_angle_shots)

text \<open>The search returns a closest ball among those that are not cue balls.\<close>

lemma closer_loop:
  assumes "fold (closer h cue) bs (dc, cb) = (dc', cb')"
    and "(dc = None \<and> cb = None \<and> (\<forall>b\<in>S. is_cue (h b)))
       \<or> (\<exists>c. cb = Some c \<and> dc = Some (distance (x (h cue)) (y (h cue)) (x (h c)) (y (h c)))
              \<and> c \<in> S \<and> \<not> is_cue (h c)
              \<and> (\<forall>b\<in>S. is_cue (h b) \<or> distance (x (h cue)) (y (h cue)) (x (h c)) (y (h c))
                                        \<le> distance (x (h cue)) (y (h cue)) (x (h b)) (y (h b))))"
  shows "(dc' = None \<and> cb' = None \<and> (\<forall>b\<in>S \<union> set bs. is_cue (h b)))
       \<or> (\<exists>c. cb' = Some c \<and> dc' = Some (distance (x (h cue)) (y (h cue)) (x (h c)) (y (h c)))
              \<and> c \<in> S \<union> set bs \<and> \<not> is_cue (h c)
              \<and> (\<forall>b\<in>S \<union> set bs. is_cue (h b) \<or> distance (x (h cue)) (y (h cue)) (x (h c)) (y (h c))
                                        \<le> distance (x (h cue)) (y (h cue)) (x (h b)) (y (h b))))"
  using assms
proof (induction bs arbitrary: dc cb S)
  case Nil
  then show ?case by simp
next
  case (Cons a bs)
  obtain dc1 cb1 where step: "closer h cue a (dc, cb) = (dc1, cb1)"
    by (cases "closer h cue a (dc, cb)")
  then have run: "fold (closer h cue) bs (dc1, cb1) = (dc', cb')"
    using Cons.prems(1) by simp
  have inv: "(dc1 = None \<and> cb1 = None \<and> (\<forall>b\<in>insert a S. is_cue (h b)))
       \<or> (\<exists>c. cb1 = Some c \<and> dc1 = Some (distance (x (h cue)) (y (h cue)) (x (h c)) (y (h c)))
              \<and> c \<in> insert a S \<and> \<not> is_cue (h c)
              \<and> (\<forall>b\<in>insert a S. is_cue (h b) \<or> distance (x (h cue)) (y (h cue)) (x (h c)) (y (h c))
                                        \<le> distance (x (h cue)) (y (h cue)) (x (h b)) (y (h b))))"
    using Cons.prems(2) step
    by (fastforce simp: closer_def Let_def split: if_splits option.splits)
  have "insert a S \<union> set bs = S \<union> set (a # bs)" by auto
  then show ?case
    using Cons.IH [OF run inv] by simp
qed

lemma closest_ball_closest:
  "(case closest_ball s of
      None \<Rightarrow> list_all (\<lambda>b. is_cue (heap s b)) (balls s)
    | Some c \<Rightarrow> c \<in> set (balls s) \<and> \<not> is_cue (heap s c)
        \<and> list_all (\<lambda>b. is_cue (heap s b) \<or> cue_dist s c \<le> cue_dist s b) (balls s))"
proof -
  obtain dc' cb' where f: "fold (closer (heap s) (cue_ball s)) (balls s) (None, None) = (dc', cb')"
    by (cases "fold (closer (heap s) (cue_ball s)) (balls s) (None, None)")
  have "closest_ball s = cb'" by (simp add: closest_ball_def f)
  then show ?thesis
    using closer_loop [OF f, of "{}"]
    by (auto simp: list_all_iff cue_dist_def)
qed

text \<open>
  Claim C1, as stated: the answer \<^verbatim>\<open>{"angle_degrees": 400, "power": 5}\<close> leads to the shot
  \<open>(fallback_angle, 8.0)\<close>. It does not: the angle is normalized to 40 and the pair is in
  range, so the answer is accepted. Here with the fallback angle 30.
\<close>

theorem advisor_400_not_fallback:
  \<open>call_llm (chat_completion ''{"angle_degrees": 400, "power": 5}'') 30 \<noteq> (30, 8)\<close>
  by (simp add: call_llm_400)

text \<open>
  Claim C1, amended. The answer \<^verbatim>\<open>{"angle_degrees": 400, "power": 5}\<close> is accepted with its
  angle normalized modulo 360: \<open>call_llm\<close> returns \<open>(40, 5)\<close> and the engine applies that
  shot. When the call fails with a transport error (the request raises, or the body is
  not JSON), \<open>call_llm\<close> returns exactly
  \<open>(fallback_angle, 8)\<close>, and the engine applies that shot to the cue ball, where
  \<open>fallback_angle\<close> is the angle computed from the cue ball to a ball of the live list that is
  not a cue ball and is closest to the cue ball among those, or 0 when there is none.
\<close>

theorem advisor_fallback:
  \<open>call_llm (chat_completion ''{"angle_degrees": 400, "power": 5}'') fb = (40, 5)
   \<and> heap (take_shot (chat_completion ''{"angle_degrees": 400, "power": 5}'') s)
       = apply_shot (40, 5) (cue_ball s) (heap s)
   \<and> call_llm PostRaises fb = (fb, 8)
   \<and> call_llm JsonRaises fb = (fb, 8)
   \<and> heap (take_shot PostRaises s) = apply_shot (fallback_angle s, 8) (cue_ball s) (heap s)
   \<and> heap (take_shot JsonRaises s) = apply_shot (fallback_angle s, 8) (cue_ball s) (heap s)
   \<and> (case closest_ball s of
        None \<Rightarrow> fallback_angle s = 0 \<and> list_all (\<lambda>b. is_cue (heap s b)) (balls s)
      | Some c \<Rightarrow>
          fallback_angle s =
            angle_degrees (x (heap s (cue_ball s))) (y (heap s (cue_ball s)))
              (x (heap s c)) (y (heap s c))
          \<and> c \<in> set (balls s) \<and> \<not> is_cue (heap s c)
          \<and> list_all (\<lambda>b. is_cue (heap s b) \<or> cue_dist s c \<le> cue_dist s b) (balls s))\<close>
proof -
  have "case closest_ball s of
        None \<Rightarrow> fallback_angle s = 0 \<and> list_all (\<lambda>b. is_cue (heap s b)) (balls s)
      | Some c \<Rightarrow>
          fallback_angle s =
            angle_degrees (x (heap s (cue_ball s))) (y (heap s (cue_ball s)))
              (x (heap s c)) (y (heap s c))
          \<and> c \<in> set (balls s) \<and> \<not> is_cue (heap s c)
          \<and> list_all (\<lambda>b. is_cue (heap s b) \<or> cue_dist s c \<le> cue_dist s b) (balls s)"
    using closest_ball_closest [of s]
    by (simp add: fallback_angle_def split: option.splits)
  then show ?thesis
    by (simp add: call_llm_400 call_llm_transport take_shot_heap)
qed


text \<open>
  Claim C10. The power \<open>call_llm\<close> returns is always in \<open>[0, 15]\<close>. A shot sets the velocity
  of the cue ball to \<open>(cos rad * power, sin rad * power)\<close> for the returned angle in
  radians, so the speed of the cue ball right after a shot is at most 15.
\<close>

theorem shot_speed_bounded:
  "0 \<le> snd (call_llm reply fb) \<and> snd (call_llm reply fb) \<le> 15
   \<and> vx (heap (take_shot reply s) (cue_ball s)) =
       cos (radians (fst (call_llm reply (fallback_angle s))))
         * snd (call_llm reply (fallback_angle s))
   \<and> vy (heap (take_shot reply s) (cue_ball s)) =
       sin (radians (fst (call_llm reply (fallback_angle s))))
         * snd (call_llm reply (fallback_angle s))
   \<and> speed (heap (take_shot reply s) (cue_ball s)) \<le> 15"
proof -
  obtain a p where shot: "call_llm reply (fallback_angle s) = (a, p)"
    by (cases "call_llm reply (fallback_angle s)")
  have p: "0 \<le> p \<and> p \<le> 15"
    using call_llm_power [of reply "fallback_angle s"] by (simp add: shot)
  then have "\<bar>p\<bar> \<le> 15" by simp
  then show ?thesis
    using call_llm_power [of reply fb]
    by (simp add: take_shot_heap shot apply_shot_cue)
qed

section \<open>The collision resolver\<close>

lemma and_then_Inr [simp]: "and_then (Inr v) f = f v"
  by (simp add: and_then_def)

lemma and_then_Inl [simp]: "and_then (Inl e) f = Inl e"
  by (simp add: and_then_def)

lemma guarded_dist_pos: "0 < guarded_dist dx dy"
proof -
  have "0 \<le> hypot dx dy" by (simp add: hypot_def)
  then show ?thesis
    by (auto simp: guarded_dist_def Let_def less_le)
qed

lemma collide_Inr:
  "collide b1 b2 h =
     Inr (let dx = x (h b2) - x (h b1); dy = y (h b2) - y (h b1); dist = guarded_dist dx dy in
          if dist < 2 * BALL_RADIUS
          then exchange_normal b1 b2 (dx / dist) (dy / dist)
                 (push_apart b1 b2 (dx / dist * ((2 * BALL_RADIUS - dist) / 2))
                    (dy / dist * ((2 * BALL_RADIUS - dist) / 2)) h)
          else h)"
proof -
  have "guarded_dist (x (h b2) - x (h b1)) (y (h b2) - y (h b1)) \<noteq> 0"
    using guarded_dist_pos [of "x (h b2) - x (h b1)" "y (h b2) - y (h b1)"] by simp
  then show ?thesis
    by (simp add: collide_def Let_def py_div_def)
qed

lemma push_apart_velocity:
  "vx (push_apart b1 b2 px py h r) = vx (h r)" "vy (push_apart b1 b2 px py h r) = vy (h r)"
  by (simp_all add: push_apart_def Let_def set_x_def set_y_def)

lemma exchange_normal_same: "exchange_normal b b nx ny h = h"
  by (rule ext) (simp add: exchange_normal_def Let_def set_vx_def set_vy_def)

lemma exchange_normal_vx:
  "b1 \<noteq> b2 \<Longrightarrow> vx (exchange_normal b1 b2 nx ny h r) =
     vx (h r) + (if r = b1 then ((vx (h b2) * nx + vy (h b2) * ny) - (vx (h b1) * nx + vy (h b1) * ny)) * nx else 0)
              - (if r = b2 then ((vx (h b2) * nx + vy (h b2) * ny) - (vx (h b1) * nx + vy (h b1) * ny)) * nx else 0)"
  by (simp add: exchange_normal_def Let_def set_vx_def set_vy_def algebra_simps)

lemma exchange_normal_vy:
  "b1 \<noteq> b2 \<Longrightarrow> vy (exchange_normal b1 b2 nx ny h r) =
     vy (h r) + (if r = b1 then ((vx (h b2) * nx + vy (h b2) * ny) - (vx (h b1) * nx + vy (h b1) * ny)) * ny else 0)
              - (if r = b2 then ((vx (h b2) * nx + vy (h b2) * ny) - (vx (h b1) * nx + vy (h b1) * ny)) * ny else 0)"
  by (simp add: exchange_normal_def Let_def set_vx_def set_vy_def algebra_simps)

lemma sum_shift:
  assumes "finite B" "b1 \<in> B" "b2 \<in> B"
  shows "(\<Sum>r\<in>B. f r + (if r = b1 then d else 0) - (if r = b2 then d else 0)) = (\<Sum>r\<in>B. (f r :: real))"
  using assms by (simp add: sum.distrib sum_subtractf sum.delta)

lemma exchange_normal_momentum:
  assumes "finite B" "b1 \<in> B" "b2 \<in> B"
  shows "momentum_x B (exchange_normal b1 b2 nx ny h) = momentum_x B h"
    and "momentum_y B (exchange_normal b1 b2 nx ny h) = momentum_y B h"
proof -
  show "momentum_x B (exchange_normal b1 b2 nx ny h) = momentum_x B h"
  proof (cases "b1 = b2")
    case True then show ?thesis by (simp add: exchange_normal_same)
  next
    case False
    show ?thesis unfolding momentum_x_def exchange_normal_vx [OF False]
      by (rule sum_shift [OF assms])
  qed
  show "momentum_y B (exchange_normal b1 b2 nx ny h) = momentum_y B h"
  proof (cases "b1 = b2")
    case True then show ?thesis by (simp add: exchange_normal_same)
  next
    case False
    show ?thesis unfolding momentum_y_def exchange_normal_vy [OF False]
      by (rule sum_shift [OF assms])
  qed
qed

lemma push_apart_momentum:
  "momentum_x B (push_apart b1 b2 px py h) = momentum_x B h"
  "momentum_y B (push_apart b1 b2 px py h) = momentum_y B h"
  by (simp_all add: momentum_x_def momentum_y_def push_apart_velocity)

lemma collide_momentum:
  assumes "finite B" "b1 \<in> B" "b2 \<in> B" "collide b1 b2 h = Inr h'"
  shows "momentum_x B h' = momentum_x B h \<and> momentum_y B h' = momentum_y B h"
  using assms(4) unfolding collide_Inr
  by (auto simp: Let_def exchange_normal_momentum [OF assms(1-3)] push_apart_momentum split: if_splits)

lemma for_each_total:
  assumes "\<And>a s. \<exists>s'. body a s = Inr s'"
  shows "\<exists>s'. for_each as body s = Inr s'"
proof (induction as arbitrary: s)
  case Nil
  then show ?case by simp
next
  case (Cons a as)
  obtain s1 where "body a s = Inr s1" using assms by blast
  then show ?case using Cons [of s1] by simp
qed

lemma for_each_invariant:
  assumes "for_each as body s = Inr s'" "P s"
    and "\<And>a t t'. a \<in> set as \<Longrightarrow> P t \<Longrightarrow> body a t = Inr t' \<Longrightarrow> P t'"
  shows "P s'"
  using assms
proof (induction as arbitrary: s)
  case Nil
  then show ?case by simp
next
  case (Cons a as)
  from Cons.prems(1) obtain s1 where s1: "body a s = Inr s1" "for_each as body s1 = Inr s'"
    by (cases "body a s") auto
  have "P s1" using Cons.prems(3) [of a s s1] Cons.prems(2) s1(1) by simp
  then show ?case
    by (rule Cons.IH [OF s1(2)]) (use Cons.prems(3) in auto)
qed

lemma handle_collisions_total: "\<exists>h'. handle_collisions bs h = Inr h'"
  unfolding handle_collisions_def
  by (intro for_each_total) (simp add: collide_Inr)

lemma handle_collisions_momentum:
  assumes "handle_collisions bs h = Inr h'"
  shows "momentum_x (set bs) h' = momentum_x (set bs) h \<and> momentum_y (set bs) h' = momentum_y (set bs) h"
proof -
  let ?P = "\<lambda>t. momentum_x (set bs) t = momentum_x (set bs) h \<and> momentum_y (set bs) t = momentum_y (set bs) h"
  have inner: "?P t'" if "i < length bs" "?P t" "for_each [i + 1..<length bs] (\<lambda>j. collide (bs ! i) (bs ! j)) t = Inr t'"
    for i t t'
  proof (rule for_each_invariant [where P = ?P, OF that(3) that(2)])
    fix j u u'
    assume j: "j \<in> set [i + 1..<length bs]" and u: "?P u" and c: "collide (bs ! i) (bs ! j) u = Inr u'"
    have "bs ! i \<in> set bs" "bs ! j \<in> set bs" using that(1) j by auto
    then show "?P u'"
      using collide_momentum [OF _ _ _ c, of "set bs"] u by simp
  qed
  show ?thesis
  proof (rule for_each_invariant [where P = ?P, OF assms [unfolded handle_collisions_def]])
    show "?P h" by simp
  next
    fix i t t'
    assume "i \<in> set [0..<length bs]" and t: "?P t"
      and f: "for_each [i + 1..<length bs] (\<lambda>j. collide (bs ! i) (bs ! j)) t = Inr t'"
    then have "i < length bs" by simp
    then show "?P t'" using t f by (rule inner)
  qed
qed

lemma exchange_normal_tangential:
  "vy (exchange_normal b1 b2 nx ny h r) * nx - vx (exchange_normal b1 b2 nx ny h r) * ny
     = vy (h r) * nx - vx (h r) * ny"
proof (cases "b1 = b2")
  case True
  then show ?thesis by (simp add: exchange_normal_same)
next
  case False
  show ?thesis
    unfolding exchange_normal_vx [OF False] exchange_normal_vy [OF False]
    by (simp add: algebra_simps)
qed

lemma exchange_normal_normal:
  "vx (exchange_normal b1 b2 nx ny h b1) * nx + vy (exchange_normal b1 b2 nx ny h b1) * ny
     = (if b1 = b2 then vx (h b1) * nx + vy (h b1) * ny
        else (vx (h b1) * nx + vy (h b1) * ny) * (1 - (nx\<^sup>2 + ny\<^sup>2))
             + (vx (h b2) * nx + vy (h b2) * ny) * (nx\<^sup>2 + ny\<^sup>2))"
  "vx (exchange_normal b1 b2 nx ny h b2) * nx + vy (exchange_normal b1 b2 nx ny h b2) * ny
     = (if b1 = b2 then vx (h b2) * nx + vy (h b2) * ny
        else (vx (h b2) * nx + vy (h b2) * ny) * (1 - (nx\<^sup>2 + ny\<^sup>2))
             + (vx (h b1) * nx + vy (h b1) * ny) * (nx\<^sup>2 + ny\<^sup>2))"
proof -
  show "vx (exchange_normal b1 b2 nx ny h b1) * nx + vy (exchange_normal b1 b2 nx ny h b1) * ny
     = (if b1 = b2 then vx (h b1) * nx + vy (h b1) * ny
        else (vx (h b1) * nx + vy (h b1) * ny) * (1 - (nx\<^sup>2 + ny\<^sup>2))
             + (vx (h b2) * nx + vy (h b2) * ny) * (nx\<^sup>2 + ny\<^sup>2))"
  proof (cases "b1 = b2")
    case True
    then show ?thesis by (simp add: exchange_normal_same)
  next
    case False
    show ?thesis
      unfolding exchange_normal_vx [OF False] exchange_normal_vy [OF False]
      using False by (simp add: algebra_simps power2_eq_square)
  qed
  show "vx (exchange_normal b1 b2 nx ny h b2) * nx + vy (exchange_normal b1 b2 nx ny h b2) * ny
     = (if b1 = b2 then vx (h b2) * nx + vy (h b2) * ny
        else (vx (h b2) * nx + vy (h b2) * ny) * (1 - (nx\<^sup>2 + ny\<^sup>2))
             + (vx (h b1) * nx + vy (h b1) * ny) * (nx\<^sup>2 + ny\<^sup>2))"
  proof (cases "b1 = b2")
    case True
    then show ?thesis by (simp add: exchange_normal_same)
  next
    case False
    show ?thesis
      unfolding exchange_normal_vx [OF False] exchange_normal_vy [OF False]
      using False by (simp add: algebra_simps power2_eq_square)
  qed
qed

text \<open>The normal \<^verbatim>\<open>(dx / dist, dy / dist)\<close> is a unit vector, except at exact overlap.\<close>

lemma collision_normal_unit:
  "(dx / guarded_dist dx dy)\<^sup>2 + (dy / guarded_dist dx dy)\<^sup>2 = (if hypot dx dy = 0 then 0 else 1)"
proof (cases "hypot dx dy = 0")
  case True
  then have "dx = 0 \<and> dy = 0"
    by (simp add: hypot_def real_sqrt_eq_zero_cancel_iff sum_power2_eq_zero_iff)
  then show ?thesis using True by simp
next
  case False
  define g where "g = hypot dx dy"
  have g2: "g\<^sup>2 = dx\<^sup>2 + dy\<^sup>2"
    by (simp add: g_def hypot_def)
  have "(dx / g)\<^sup>2 + (dy / g)\<^sup>2 = (dx\<^sup>2 + dy\<^sup>2) / g\<^sup>2"
    by (simp add: power_divide add_divide_distrib)
  also have "\<dots> = 1"
    using False by (simp add: g2 [symmetric] g_def)
  finally show ?thesis
    using False by (simp add: guarded_dist_def g_def)
qed

text \<open>
  Claim C9. \<^verbatim>\<open>handle_collisions\<close> never raises, for every list of balls and every
  heap: it returns a heap. The only operations of it that can raise are the divisions
  by \<^verbatim>\<open>dist\<close>, and \<^verbatim>\<open>dist\<close> is never zero when they run: at exact overlap of the centres
  (\<open>dx = dy = 0\<close>, so the distance is 0) the value 0.001 has been substituted.
\<close>

theorem handle_collisions_never_raises:
  "(\<exists>h'. handle_collisions bs h = Inr h')
   \<and> (\<exists>h'. collide b1 b2 h = Inr h')
   \<and> guarded_dist dx dy = (if hypot dx dy = 0 then 1 / 1000 else hypot dx dy)
   \<and> guarded_dist 0 0 = 1 / 1000
   \<and> guarded_dist dx dy \<noteq> 0
   \<and> (\<exists>q. py_div dx (guarded_dist dx dy) = Inr q)"
proof -
  have nz: "guarded_dist dx dy \<noteq> 0"
    using guarded_dist_pos [of dx dy] by simp
  have "guarded_dist 0 0 = 1 / 1000"
    by (simp add: guarded_dist_def hypot_def)
  moreover have "guarded_dist dx dy = (if hypot dx dy = 0 then 1 / 1000 else hypot dx dy)"
    by (simp add: guarded_dist_def)
  moreover have "\<exists>q. py_div dx (guarded_dist dx dy) = Inr q"
    using nz by (simp add: py_div_def)
  ultimately show ?thesis
    using nz handle_collisions_total [of bs h] collide_Inr [of b1 b2 h] by blast
qed

text \<open>
  Claim C6. One call of \<^verbatim>\<open>handle_collisions\<close> returns a heap in which the sum of \<open>vx\<close> and
  the sum of \<open>vy\<close> over the balls of the list (each object counted once) are what they
  were before. The velocity exchange of a pair leaves the tangential component of every
  ball untouched, and changes the normal components of the two balls only: with a unit
  normal the two balls swap them.
\<close>

theorem handle_collisions_momentum_conserved:
  "(\<exists>h'. handle_collisions bs h = Inr h'
         \<and> momentum_x (set bs) h' = momentum_x (set bs) h
         \<and> momentum_y (set bs) h' = momentum_y (set bs) h)
   \<and> vy (exchange_normal b1 b2 nx ny h r) * nx - vx (exchange_normal b1 b2 nx ny h r) * ny
       = vy (h r) * nx - vx (h r) * ny
   \<and> vx (exchange_normal b1 b2 nx ny h b1) * nx + vy (exchange_normal b1 b2 nx ny h b1) * ny
       = (if b1 = b2 then vx (h b1) * nx + vy (h b1) * ny
          else (vx (h b1) * nx + vy (h b1) * ny) * (1 - (nx\<^sup>2 + ny\<^sup>2))
               + (vx (h b2) * nx + vy (h b2) * ny) * (nx\<^sup>2 + ny\<^sup>2))
   \<and> vx (exchange_normal b1 b2 nx ny h b2) * nx + vy (exchange_normal b1 b2 nx ny h b2) * ny
       = (if b1 = b2 then vx (h b2) * nx + vy (h b2) * ny
          else (vx (h b2) * nx + vy (h b2) * ny) * (1 - (nx\<^sup>2 + ny\<^sup>2))
               + (vx (h b1) * nx + vy (h b1) * ny) * (nx\<^sup>2 + ny\<^sup>2))"
proof -
  obtain h' where h': "handle_collisions bs h = Inr h'"
    using handle_collisions_total [of bs h] by blast
  have "momentum_x (set bs) h' = momentum_x (set bs) h \<and> momentum_y (set bs) h' = momentum_y (set bs) h"
    using h' by (rule handle_collisions_momentum)
  then have "\<exists>h'. handle_collisions bs h = Inr h'
         \<and> momentum_x (set bs) h' = momentum_x (set bs) h
         \<and> momentum_y (set bs) h' = momentum_y (set bs) h"
    using h' by blast
  then show ?thesis
    using exchange_normal_tangential [of b1 b2 nx ny h r]
      exchange_normal_normal [of b1 b2 nx ny h]
    by blast
qed

section \<open>The pocket check\<close>

lemma restart_values: "RESTART_X = 200" "RESTART_Y = 200"
  by (simp_all add: RESTART_X_def RESTART_Y_def table_defs)

lemma sqrt_ge_25: "625 \<le> a \<Longrightarrow> \<not> sqrt a < 25"
proof -
  assume "625 \<le> a"
  then have "sqrt 625 \<le> sqrt a" by (simp only: real_sqrt_le_iff)
  moreover have "sqrt 625 = 25" using real_sqrt_abs [of 25] by simp
  ultimately show ?thesis by simp
qed

lemma restart_not_potted: "p \<in> set pockets \<Longrightarrow> \<not> in_pocket (restart b) p"
  by (auto simp: pockets_def in_pocket_def restart_def restart_values distance_def hypot_def
      table_defs intro!: sqrt_ge_25)

lemma potted_restart: "\<not> potted (restart b)"
  by (simp add: potted_def list_ex_iff restart_not_potted)

text \<open>The loop over the pockets, for a ball of each kind.\<close>

lemma pockets_black:
  "is_black (heap s b) \<Longrightarrow>
   fold (check_pocket b) ps (s, rem) =
     (if list_ex (in_pocket (heap s b)) ps then s\<lparr>game_over := True, win_message := Some WIN\<rparr> else s, rem)"
proof (induction ps arbitrary: s)
  case Nil
  then show ?case by simp
next
  case (Cons p ps)
  show ?case
  proof (cases "in_pocket (heap s b) p")
    case True
    then have "check_pocket b p (s, rem) = (s\<lparr>game_over := True, win_message := Some WIN\<rparr>, rem)"
      using Cons.prems by (simp add: check_pocket_def)
    then show ?thesis
      using Cons.IH [of "s\<lparr>game_over := True, win_message := Some WIN\<rparr>"] Cons.prems True
      by simp
  next
    case False
    then have "check_pocket b p (s, rem) = (s, rem)"
      by (simp add: check_pocket_def)
    then show ?thesis
      using Cons.IH [of s] Cons.prems False by simp
  qed
qed

lemma pockets_cue:
  assumes "\<not> is_black (heap s b)" "is_cue (heap s b)" "set ps \<subseteq> set pockets"
  shows "fold (check_pocket b) ps (s, rem) =
     (if list_ex (in_pocket (heap s b)) ps then s\<lparr>heap := (heap s)(b := restart (heap s b))\<rparr> else s, rem)"
  using assms
proof (induction ps arbitrary: s)
  case Nil
  then show ?case by simp
next
  case (Cons p ps)
  show ?case
  proof (cases "in_pocket (heap s b) p")
    case True
    let ?s1 = "s\<lparr>heap := (heap s)(b := restart (heap s b))\<rparr>"
    have step: "check_pocket b p (s, rem) = (?s1, rem)"
      using Cons.prems True by (simp add: check_pocket_def restart_def)
    have no: "\<not> list_ex (in_pocket (heap ?s1 b)) ps"
      using Cons.prems(3) by (auto simp: list_ex_iff restart_not_potted)
    have "fold (check_pocket b) ps (?s1, rem) = (?s1, rem)"
      using Cons.IH [of ?s1] Cons.prems no by (simp add: restart_def)
    then show ?thesis using step True by simp
  next
    case False
    then have "check_pocket b p (s, rem) = (s, rem)"
      by (simp add: check_pocket_def)
    then show ?thesis
      using Cons.IH [of s] Cons.prems False by simp
  qed
qed

lemma pockets_object:
  assumes "\<not> is_black (heap s b)" "\<not> is_cue (heap s b)"
  shows "fold (check_pocket b) ps (s, rem) =
     (s, rem @ map (\<lambda>p. b) (filter (in_pocket (heap s b)) ps))"
  using assms
proof (induction ps arbitrary: rem)
  case Nil
  then show ?case by simp
next
  case (Cons p ps)
  then show ?case by (simp add: check_pocket_def)
qed


lemma restart_kind [simp]:
  "is_cue (restart b) = is_cue b" "is_black (restart b) = is_black b"
  by (simp_all add: restart_def)

lemma pockets_loop:
  "fold (check_pocket b) pockets (s, rem) =
     (s\<lparr>heap := (heap s)(b := if potted_cue (heap s b) then restart (heap s b) else heap s b),
        game_over := game_over s \<or> potted_black (heap s b),
        win_message := if potted_black (heap s b) then Some WIN else win_message s\<rparr>,
      rem @ (if \<not> is_black (heap s b) \<and> \<not> is_cue (heap s b)
             then map (\<lambda>p. b) (filter (in_pocket (heap s b)) pockets) else []))"
proof (cases "is_black (heap s b)")
  case True
  then show ?thesis
    by (simp add: pockets_black potted_black_def potted_cue_def potted_def)
next
  case False
  show ?thesis
  proof (cases "is_cue (heap s b)")
    case True
    then show ?thesis
      using False by (simp add: pockets_cue potted_black_def potted_cue_def potted_def)
  next
    case cue: False
    then show ?thesis
      using False by (simp add: pockets_object potted_black_def potted_cue_def)
  qed
qed

lemma balls_loop:
  assumes "fold (\<lambda>b. fold (check_pocket b) pockets) bs (s, rem) = (s', rem')"
  shows "balls s' = balls s \<and> cue_ball s' = cue_ball s \<and> shots_taken s' = shots_taken s
    \<and> requests s' = requests s
    \<and> (\<forall>r. heap s' r = (if r \<in> set bs \<and> potted_cue (heap s r) then restart (heap s r) else heap s r))
    \<and> game_over s' = (game_over s \<or> (\<exists>b\<in>set bs. potted_black (heap s b)))
    \<and> win_message s' = (if \<exists>b\<in>set bs. potted_black (heap s b) then Some WIN else win_message s)
    \<and> rem' = rem @ concat (map (\<lambda>b. if \<not> is_black (heap s b) \<and> \<not> is_cue (heap s b)
                 then map (\<lambda>p. b) (filter (in_pocket (heap s b)) pockets) else []) bs)"
  using assms
proof (induction bs arbitrary: s rem)
  case Nil
  then show ?case by simp
next
  case (Cons b bs)
  define s1 where "s1 = s\<lparr>heap := (heap s)(b := if potted_cue (heap s b) then restart (heap s b) else heap s b),
        game_over := game_over s \<or> potted_black (heap s b),
        win_message := if potted_black (heap s b) then Some WIN else win_message s\<rparr>"
  define rem1 where "rem1 = rem @ (if \<not> is_black (heap s b) \<and> \<not> is_cue (heap s b)
             then map (\<lambda>p. b) (filter (in_pocket (heap s b)) pockets) else [])"
  have run: "fold (\<lambda>b. fold (check_pocket b) pockets) bs (s1, rem1) = (s', rem')"
    using Cons.prems by (simp add: pockets_loop s1_def rem1_def)
  note IH = Cons.IH [OF run]
  have h1: "heap s1 r = (if r = b \<and> potted_cue (heap s b) then restart (heap s b) else heap s r)" for r
    by (simp add: s1_def)
  have kinds: "is_black (heap s1 r) = is_black (heap s r)" "is_cue (heap s1 r) = is_cue (heap s r)" for r
    by (simp_all add: h1)
  have pc: "potted_cue (heap s1 r) = (potted_cue (heap s r) \<and> r \<noteq> b)" for r
    by (auto simp: h1 potted_cue_def potted_restart)
  have pb: "potted_black (heap s1 r) = potted_black (heap s r)" for r
    by (auto simp: h1 potted_black_def potted_cue_def)
  have obj: "(if \<not> is_black (heap s1 r) \<and> \<not> is_cue (heap s1 r)
                 then map (\<lambda>p. r) (filter (in_pocket (heap s1 r)) pockets) else [])
         = (if \<not> is_black (heap s r) \<and> \<not> is_cue (heap s r)
                 then map (\<lambda>p. r) (filter (in_pocket (heap s r)) pockets) else [])" for r
    by (auto simp: h1 potted_cue_def)
  have frame: "balls s1 = balls s" "cue_ball s1 = cue_ball s" "shots_taken s1 = shots_taken s"
    "requests s1 = requests s"
    by (simp_all add: s1_def)
  have go1: "game_over s1 = (game_over s \<or> potted_black (heap s b))"
    and wm1: "win_message s1 = (if potted_black (heap s b) then Some WIN else win_message s)"
    by (simp_all add: s1_def)
  have heap': "heap s' r = (if r \<in> set (b # bs) \<and> potted_cue (heap s r) then restart (heap s r) else heap s r)" for r
  proof -
    have "heap s' r = (if r \<in> set bs \<and> potted_cue (heap s1 r) then restart (heap s1 r) else heap s1 r)"
      using IH by blast
    then show ?thesis
      unfolding pc by (auto simp: h1)
  qed
  have go: "game_over s' = (game_over s \<or> (\<exists>b\<in>set (b # bs). potted_black (heap s b)))"
  proof -
    have "game_over s' = (game_over s1 \<or> (\<exists>b\<in>set bs. potted_black (heap s1 b)))"
      using IH by blast
    then show ?thesis
      unfolding pb go1 by auto
  qed
  have wm: "win_message s' = (if \<exists>b\<in>set (b # bs). potted_black (heap s b) then Some WIN else win_message s)"
  proof -
    have "win_message s' = (if \<exists>b\<in>set bs. potted_black (heap s1 b) then Some WIN else win_message s1)"
      using IH by blast
    then show ?thesis
      unfolding pb wm1 by auto
  qed
  have rm: "rem' = rem @ concat (map (\<lambda>b. if \<not> is_black (heap s b) \<and> \<not> is_cue (heap s b)
                 then map (\<lambda>p. b) (filter (in_pocket (heap s b)) pockets) else []) (b # bs))"
  proof -
    have "rem' = rem1 @ concat (map (\<lambda>b. if \<not> is_black (heap s1 b) \<and> \<not> is_cue (heap s1 b)
                 then map (\<lambda>p. b) (filter (in_pocket (heap s1 b)) pockets) else []) bs)"
      using IH by blast
    then show ?thesis
      unfolding obj by (simp add: rem1_def)
  qed
  have fr: "balls s' = balls s" "cue_ball s' = cue_ball s" "shots_taken s' = shots_taken s"
    "requests s' = requests s"
    using IH frame by simp_all
  show ?case
    using fr heap' go wm rm by blast
qed

lemma remove1_at_most_once:
  "count_list bs a \<le> 1 \<Longrightarrow> remove1 a bs = filter (\<lambda>r. r \<noteq> a) bs"
proof (induction bs)
  case Nil
  then show ?case by simp
next
  case (Cons b bs)
  show ?case
  proof (cases "a = b")
    case True
    then have "count_list bs a = 0" using Cons.prems by simp
    then have "a \<notin> set bs" by (simp add: count_list_0_iff)
    then have "filter (\<lambda>r. r \<noteq> a) bs = bs" by (auto intro: filter_True)
    then show ?thesis using True by simp
  next
    case False
    then show ?thesis using Cons by simp
  qed
qed

lemma remove_balls_filter:
  assumes "\<forall>r\<in>set rem. count_list bs r \<le> count_list rem r"
  shows "remove_balls rem bs = filter (\<lambda>r. r \<notin> set rem) bs"
  using assms
proof (induction rem arbitrary: bs)
  case Nil
  then show ?case by (simp add: remove_balls_def)
next
  case (Cons a rem)
  have step: "remove_balls (a # rem) bs = remove_balls rem (remove1 a bs)"
    by (simp add: remove_balls_def remove1_idem)
  have pre: "\<forall>r\<in>set rem. count_list (remove1 a bs) r \<le> count_list rem r"
  proof
    fix r assume r: "r \<in> set rem"
    then have "count_list bs r \<le> count_list (a # rem) r" using Cons.prems by simp
    then show "count_list (remove1 a bs) r \<le> count_list rem r"
      by (auto simp: count_list_remove1 split: if_splits)
  qed
  have IH: "remove_balls rem (remove1 a bs) = filter (\<lambda>r. r \<notin> set rem) (remove1 a bs)"
    by (rule Cons.IH [OF pre])
  show ?case
  proof (cases "a \<in> set rem")
    case True
    have "filter (\<lambda>r. r \<notin> set rem) (remove1 a bs) = filter (\<lambda>r. r \<notin> set rem) bs"
      using True by (simp add: filter_remove1 remove1_filter_not)
    moreover have "set (a # rem) = set rem" using True by auto
    ultimately show ?thesis using step IH by simp
  next
    case False
    then have "count_list rem a = 0" by (simp add: count_list_0_iff)
    then have "count_list bs a \<le> 1" using Cons.prems by simp
    then have "remove1 a bs = filter (\<lambda>r. r \<noteq> a) bs" by (rule remove1_at_most_once)
    then show ?thesis using step IH by (simp add: conj_commute)
  qed
qed

lemma count_list_const_map: "count_list (map (\<lambda>p. b) ps) r = (if b = r then length ps else 0)"
  by (induction ps) auto

lemma count_removed:
  "count_list (concat (map (\<lambda>b. if P b then map (\<lambda>p. b) (filter (Q b) ps) else []) bs)) r
     = count_list bs r * (if P r then length (filter (Q r) ps) else 0)"
  by (induction bs) (auto simp: count_list_const_map)

lemma set_removed:
  "set (concat (map (\<lambda>b. if P b then map (\<lambda>p. b) (filter (Q b) ps) else []) bs))
     = {b \<in> set bs. P b \<and> list_ex (Q b) ps}"
  by (auto simp: list_ex_iff)

lemma check_pockets_removed:
  "snd (check_pockets s) =
     concat (map (\<lambda>b. if \<not> is_black (heap s b) \<and> \<not> is_cue (heap s b)
                 then map (\<lambda>p. b) (filter (in_pocket (heap s b)) pockets) else []) (balls s))"
  using balls_loop [of "balls s" s "[]" "fst (check_pockets s)" "snd (check_pockets s)"]
  by (simp add: check_pockets_def)

lemma check_pockets_state:
  "balls (fst (check_pockets s)) = balls s"
  "cue_ball (fst (check_pockets s)) = cue_ball s"
  "shots_taken (fst (check_pockets s)) = shots_taken s"
  "requests (fst (check_pockets s)) = requests s"
  "heap (fst (check_pockets s)) r =
     (if r \<in> set (balls s) \<and> potted_cue (heap s r) then restart (heap s r) else heap s r)"
  "game_over (fst (check_pockets s)) = (game_over s \<or> (\<exists>b\<in>set (balls s). potted_black (heap s b)))"
  "win_message (fst (check_pockets s)) =
     (if \<exists>b\<in>set (balls s). potted_black (heap s b) then Some WIN else win_message s)"
  using balls_loop [of "balls s" s "[]" "fst (check_pockets s)" "snd (check_pockets s)"]
  by (simp_all add: check_pockets_def)

lemma pocket_step_balls:
  "balls (pocket_step s) = filter (\<lambda>r. \<not> potted_object (heap s r)) (balls s)"
proof -
  let ?P = "\<lambda>b. \<not> is_black (heap s b) \<and> \<not> is_cue (heap s b)"
  let ?rem = "concat (map (\<lambda>b. if ?P b then map (\<lambda>p. b) (filter (in_pocket (heap s b)) pockets) else []) (balls s))"
  have cnt: "\<forall>r\<in>set ?rem. count_list (balls s) r \<le> count_list ?rem r"
  proof
    fix r assume "r \<in> set ?rem"
    then have "?P r \<and> list_ex (in_pocket (heap s r)) pockets"
      unfolding set_removed by simp
    then obtain p where "?P r" "p \<in> set (filter (in_pocket (heap s r)) pockets)"
      by (auto simp: list_ex_iff)
    then have "?P r \<and> 1 \<le> length (filter (in_pocket (heap s r)) pockets)"
      using length_pos_if_in_set [of p "filter (in_pocket (heap s r)) pockets"]
      by (simp only: Suc_le_eq One_nat_def simp_thms)
    then show "count_list (balls s) r \<le> count_list ?rem r"
      unfolding count_removed by simp
  qed
  have "balls (pocket_step s) = remove_balls ?rem (balls s)"
    by (simp add: pocket_step_def check_pockets_removed [symmetric] check_pockets_state split_beta)
  also have "\<dots> = filter (\<lambda>r. r \<notin> set ?rem) (balls s)"
    by (rule remove_balls_filter [OF cnt])
  also have "\<dots> = filter (\<lambda>r. \<not> potted_object (heap s r)) (balls s)"
    unfolding set_removed by (rule filter_cong) (auto simp: potted_object_def potted_def)
  finally show ?thesis .
qed

lemma pocket_step_state:
  "cue_ball (pocket_step s) = cue_ball s"
  "shots_taken (pocket_step s) = shots_taken s"
  "requests (pocket_step s) = requests s"
  "heap (pocket_step s) r =
     (if r \<in> set (balls s) \<and> potted_cue (heap s r) then restart (heap s r) else heap s r)"
  "game_over (pocket_step s) = (game_over s \<or> (\<exists>b\<in>set (balls s). potted_black (heap s b)))"
  "win_message (pocket_step s) =
     (if \<exists>b\<in>set (balls s). potted_black (heap s b) then Some WIN else win_message s)"
  by (simp_all add: pocket_step_def split_beta check_pockets_state)

section \<open>What a frame keeps\<close>

lemma in_pocket_iff:
  "in_pocket b p = ((fst p - x b)\<^sup>2 + (snd p - y b)\<^sup>2 < 625)"
proof -
  have "sqrt 625 = 25" using real_sqrt_abs [of 25] by simp
  then have "(sqrt a < 25) = (a < 625)" for a
    using real_sqrt_less_iff [of a 625] by simp
  then show ?thesis
    by (simp add: in_pocket_def distance_def hypot_def POCKET_RADIUS_def)
qed

lemma update_all_kind:
  "is_cue (update_all bs h r) = is_cue (h r) \<and> is_black (update_all bs h r) = is_black (h r)"
  unfolding update_all_def
  by (induction bs arbitrary: h) (simp_all add: update_kind)

lemma collide_kind:
  assumes "collide b1 b2 h = Inr h'"
  shows "is_cue (h' r) = is_cue (h r) \<and> is_black (h' r) = is_black (h r)"
  using assms unfolding collide_Inr
  by (auto simp: Let_def exchange_normal_def push_apart_def set_x_def set_y_def set_vx_def set_vy_def
      split: if_splits)

lemma handle_collisions_kind:
  assumes "handle_collisions bs h = Inr h'"
  shows "is_cue (h' r) = is_cue (h r) \<and> is_black (h' r) = is_black (h r)"
proof -
  let ?P = "\<lambda>t. is_cue (t r) = is_cue (h r) \<and> is_black (t r) = is_black (h r)"
  have inner: "?P t'" if "?P t" "for_each js (\<lambda>j. collide b (bs ! j)) t = Inr t'" for b js t t'
  proof (rule for_each_invariant [where P = ?P, OF that(2) that(1)])
    fix j u u'
    assume "?P u" "collide b (bs ! j) u = Inr u'"
    then show "?P u'" using collide_kind [of b "bs ! j" u u' r] by simp
  qed
  show ?thesis
  proof (rule for_each_invariant [where P = ?P, OF assms [unfolded handle_collisions_def]])
    show "?P h" by simp
  next
    fix i t t'
    assume "?P t" "for_each [i + 1..<length bs] (\<lambda>j. collide (bs ! i) (bs ! j)) t = Inr t'"
    then show "?P t'" by (rule inner)
  qed
qed

lemma physics_Inr:
  "\<exists>h'. handle_collisions (balls s) (update_all (balls s) (heap s)) = Inr h'
        \<and> physics s = Inr (pocket_step (s\<lparr>heap := h'\<rparr>))"
proof -
  obtain h' where "handle_collisions (balls s) (update_all (balls s) (heap s)) = Inr h'"
    using handle_collisions_total by blast
  then show ?thesis by (simp add: physics_def Let_def)
qed

lemma pocket_step_kind:
  "is_cue (heap (pocket_step s) r) = is_cue (heap s r)"
  "is_black (heap (pocket_step s) r) = is_black (heap s r)"
  by (simp_all add: pocket_step_state)

lemma pocket_step_keeps:
  assumes "c \<in> set (balls s)" "is_cue (heap s c) \<or> is_black (heap s c)"
  shows "c \<in> set (balls (pocket_step s))"
  using assms by (auto simp: pocket_step_balls potted_object_def)

lemma apply_shot_kind:
  "is_cue (apply_shot shot c h r) = is_cue (h r)" "is_black (apply_shot shot c h r) = is_black (h r)"
  by (simp_all add: apply_shot_def split_beta Let_def set_vx_def set_vy_def)

lemma turn_frame:
  "balls (turn reply s) = balls s" "cue_ball (turn reply s) = cue_ball s"
  "is_cue (heap (turn reply s) r) = is_cue (heap s r)"
  "is_black (heap (turn reply s) r) = is_black (heap s r)"
  by (simp_all add: turn_def take_shot_def finish_def Let_def apply_shot_kind)

lemma physics_keeps:
  assumes "physics s = Inr s'" "c \<in> set (balls s)" "is_cue (heap s c) \<or> is_black (heap s c)"
  shows "c \<in> set (balls s')" "is_cue (heap s' r) = is_cue (heap s r)"
    "is_black (heap s' r) = is_black (heap s r)" "cue_ball s' = cue_ball s"
proof -
  obtain h' where h': "handle_collisions (balls s) (update_all (balls s) (heap s)) = Inr h'"
    and p: "physics s = Inr (pocket_step (s\<lparr>heap := h'\<rparr>))"
    using physics_Inr [of s] by blast
  have k: "is_cue (h' q) = is_cue (heap s q) \<and> is_black (h' q) = is_black (heap s q)" for q
    using handle_collisions_kind [OF h', of q] update_all_kind [of "balls s" "heap s" q] by simp
  have s': "s' = pocket_step (s\<lparr>heap := h'\<rparr>)" using p assms(1) by simp
  show "c \<in> set (balls s')"
    unfolding s' using assms(2,3) k [of c] by (intro pocket_step_keeps) simp_all
  show "is_cue (heap s' r) = is_cue (heap s r)" "is_black (heap s' r) = is_black (heap s r)"
    unfolding s' using k [of r] by (simp_all add: pocket_step_kind)
  show "cue_ball s' = cue_ball s"
    unfolding s' by (simp add: pocket_step_state)
qed

lemma tick_Inr: "\<exists>s'. tick reply s = Inr s'"
proof -
  obtain s1 where "physics s = Inr s1" using physics_Inr [of s] by blast
  then show ?thesis by (simp add: tick_def)
qed

lemma tick_keeps:
  assumes "tick reply s = Inr s'" "c \<in> set (balls s)" "is_cue (heap s c) \<or> is_black (heap s c)"
  shows "c \<in> set (balls s') \<and> is_cue (heap s' r) = is_cue (heap s r)
    \<and> is_black (heap s' r) = is_black (heap s r) \<and> cue_ball s' = cue_ball s"
proof (cases "game_over s")
  case True
  then show ?thesis using assms by (simp add: tick_def)
next
  case False
  obtain s1 where s1: "physics s = Inr s1" using physics_Inr [of s] by blast
  then have s': "s' = turn reply s1" using assms(1) False by (simp add: tick_def)
  show ?thesis
    unfolding s' using physics_keeps [OF s1 assms(2,3)] by (simp add: turn_frame)
qed

lemma run_keeps:
  assumes "c \<in> set (balls s)" "is_cue (heap s c) \<or> is_black (heap s c)"
  shows "\<exists>s'. run advisor n s = Inr s' \<and> c \<in> set (balls s')
    \<and> is_cue (heap s' c) = is_cue (heap s c) \<and> is_black (heap s' c) = is_black (heap s c)
    \<and> cue_ball s' = cue_ball s"
  using assms
proof (induction n arbitrary: s)
  case 0
  then show ?case by simp
next
  case (Suc n)
  obtain s1 where s1: "tick (advisor (shots_taken s)) s = Inr s1"
    using tick_Inr by blast
  note k = tick_keeps [OF s1 Suc.prems]
  have "c \<in> set (balls s1)" "is_cue (heap s1 c) \<or> is_black (heap s1 c)"
    using k [of c] Suc.prems by auto
  from Suc.IH [OF this] k [of c] s1 show ?case by auto
qed

section \<open>Pocketing outcomes\<close>

lemma pot_example_potted:
  "potted_cue (heap pot_example 0)" "potted_black (heap pot_example 1)"
  "potted_object (heap pot_example 2)"
  by (simp_all add: pot_example_def potted_cue_def potted_black_def potted_object_def potted_def
      in_pocket_iff pockets_def new_Ball_def table_defs)

lemma game_over_turn: "game_over s \<Longrightarrow> turn reply s = s"
  by (simp add: turn_def finish_def)

text \<open>
  Claim C3, as stated: once the black ball is potted, no further ball is checked or
  removed in that pocket check. It fails: in the example the black ball (second in the
  list) is potted, and the red ball, which comes after it in the list, is still checked
  and removed from the live balls in the same pocket check.
\<close>

theorem black_potted_check_goes_on:
  "potted_black (heap pot_example 1) \<and> balls pot_example = [0, 1, 2]
   \<and> game_over (pocket_step pot_example)
   \<and> balls (pocket_step pot_example) = [0, 1]"
  using pot_example_potted
  by (simp add: pocket_step_balls pocket_step_state)
     (simp add: pot_example_def potted_object_def new_Ball_def)

text \<open>
  Claim C3, amended. In the pocket check of a frame, a potted black ball sets
  \<open>game_over\<close> with the win outcome, and they stay so for the rest of the frame (the turn
  step changes nothing once the game is over). The check does not stop there: every ball
  of the list is still checked in that frame, so the live balls afterwards are the
  balls before without every potted ball that is neither black nor cue, and every potted
  cue ball is reset.
\<close>

theorem black_potted_wins:
  assumes "b \<in> set (balls s)" "potted_black (heap s b)"
  shows "game_over (pocket_step s) \<and> win_message (pocket_step s) = Some WIN
    \<and> turn reply (pocket_step s) = pocket_step s
    \<and> balls (pocket_step s) = filter (\<lambda>r. \<not> potted_object (heap s r)) (balls s)
    \<and> heap (pocket_step s) r =
        (if r \<in> set (balls s) \<and> potted_cue (heap s r) then restart (heap s r) else heap s r)"
proof -
  have go: "game_over (pocket_step s)" "win_message (pocket_step s) = Some WIN"
    using assms by (auto simp: pocket_step_state)
  then show ?thesis
    by (simp add: game_over_turn pocket_step_balls pocket_step_state(4))
qed

text \<open>The example session satisfies the hypotheses of the amended claim C3.\<close>

theorem black_potted_wins_witness:
  "1 \<in> set (balls pot_example) \<and> potted_black (heap pot_example 1)
   \<and> game_over (pocket_step pot_example) \<and> win_message (pocket_step pot_example) = Some WIN
   \<and> turn PostRaises (pocket_step pot_example) = pocket_step pot_example
   \<and> balls (pocket_step pot_example)
       = filter (\<lambda>r. \<not> potted_object (heap pot_example r)) (balls pot_example)
   \<and> heap (pocket_step pot_example) 0 =
        (if 0 \<in> set (balls pot_example) \<and> potted_cue (heap pot_example 0)
         then restart (heap pot_example 0) else heap pot_example 0)"
proof -
  have h: "1 \<in> set (balls pot_example)" "potted_black (heap pot_example 1)"
    by (simp add: pot_example_def) (rule pot_example_potted)
  show ?thesis
    using h black_potted_wins [OF h, of PostRaises 0] by blast
qed

text \<open>
  Claim C8. A cue ball of the live list (a ball with \<open>is_cue\<close> set and \<open>is_black\<close> not set,
  as \<^verbatim>\<open>main\<close> creates it) is still in the list after the pocket check; when its centre is
  within the capture radius of a pocket it is then at \<open>(WIDTH / 4, HEIGHT / 2)\<close> with both
  velocity components zero, and otherwise unchanged by the check. No frame and no
  sequence of frames removes it from the live list.
\<close>

theorem cue_ball_foul_and_kept:
  assumes "c \<in> set (balls s)" "is_cue (heap s c)" "\<not> is_black (heap s c)"
  shows "c \<in> set (balls (pocket_step s))
    \<and> heap (pocket_step s) c =
        (if potted (heap s c)
         then (heap s c)\<lparr>x := of_int \<lfloor>WIDTH / 4\<rfloor>, y := of_int \<lfloor>HEIGHT / 2\<rfloor>, vx := 0, vy := 0\<rparr>
         else heap s c)
    \<and> of_int \<lfloor>WIDTH / 4\<rfloor> = WIDTH / 4 \<and> of_int \<lfloor>HEIGHT / 2\<rfloor> = HEIGHT / 2
    \<and> (\<exists>s'. tick reply s = Inr s' \<and> c \<in> set (balls s') \<and> is_cue (heap s' c)
            \<and> \<not> is_black (heap s' c))
    \<and> (\<exists>s'. run advisor n s = Inr s' \<and> c \<in> set (balls s') \<and> is_cue (heap s' c)
            \<and> \<not> is_black (heap s' c))"
proof -
  have kind: "is_cue (heap s c) \<or> is_black (heap s c)" using assms(2) by simp
  have a: "c \<in> set (balls (pocket_step s))"
    using assms(1) kind by (rule pocket_step_keeps)
  have b: "heap (pocket_step s) c =
        (if potted (heap s c)
         then (heap s c)\<lparr>x := of_int \<lfloor>WIDTH / 4\<rfloor>, y := of_int \<lfloor>HEIGHT / 2\<rfloor>, vx := 0, vy := 0\<rparr>
         else heap s c)"
    using assms by (simp add: pocket_step_state potted_cue_def restart_def RESTART_X_def RESTART_Y_def)
  have c: "of_int \<lfloor>WIDTH / 4\<rfloor> = WIDTH / 4 \<and> of_int \<lfloor>HEIGHT / 2\<rfloor> = HEIGHT / 2"
    by (simp add: table_defs)
  obtain s1 where s1: "tick reply s = Inr s1" using tick_Inr by blast
  have d: "\<exists>s'. tick reply s = Inr s' \<and> c \<in> set (balls s') \<and> is_cue (heap s' c)
            \<and> \<not> is_black (heap s' c)"
    using tick_keeps [OF s1 assms(1) kind, of c] s1 assms(2,3) by simp
  have e: "\<exists>s'. run advisor n s = Inr s' \<and> c \<in> set (balls s') \<and> is_cue (heap s' c)
            \<and> \<not> is_black (heap s' c)"
    using run_keeps [OF assms(1) kind, of advisor n] assms(2,3) by auto
  show ?thesis using a b c d e by blast
qed

text \<open>The cue ball of the example session is potted, reset and kept.\<close>

theorem cue_ball_foul_and_kept_witness:
  "0 \<in> set (balls pot_example) \<and> is_cue (heap pot_example 0) \<and> \<not> is_black (heap pot_example 0)
   \<and> potted (heap pot_example 0)
   \<and> 0 \<in> set (balls (pocket_step pot_example))
   \<and> heap (pocket_step pot_example) 0 =
        (heap pot_example 0)\<lparr>x := of_int \<lfloor>WIDTH / 4\<rfloor>, y := of_int \<lfloor>HEIGHT / 2\<rfloor>, vx := 0, vy := 0\<rparr>
   \<and> (\<exists>s'. tick PostRaises pot_example = Inr s' \<and> 0 \<in> set (balls s') \<and> is_cue (heap s' 0)
            \<and> \<not> is_black (heap s' 0))
   \<and> (\<exists>s'. run (\<lambda>k. PostRaises) 5 pot_example = Inr s' \<and> 0 \<in> set (balls s')
            \<and> is_cue (heap s' 0) \<and> \<not> is_black (heap s' 0))"
proof -
  have h: "0 \<in> set (balls pot_example)" "is_cue (heap pot_example 0)"
    "\<not> is_black (heap pot_example 0)"
    by (simp_all add: pot_example_def new_Ball_def)
  have p: "potted (heap pot_example 0)"
    using pot_example_potted(1) by (simp add: potted_cue_def)
  show ?thesis
    using h p cue_ball_foul_and_kept [OF h, of PostRaises "\<lambda>k. PostRaises" 5] by simp
qed

section \<open>The turn state machine\<close>

lemma tick_game_over: "game_over s \<Longrightarrow> tick reply s = Inr s"
  by (simp add: tick_def)

lemma run_game_over: "game_over s \<Longrightarrow> run advisor n s = Inr s"
  by (induction n) (simp_all add: tick_game_over)

lemma physics_fields:
  assumes "physics s = Inr s1"
  shows "shots_taken s1 = shots_taken s" "requests s1 = requests s"
    "game_over s \<Longrightarrow> game_over s1"
    "\<not> game_over s1 \<Longrightarrow> win_message s1 = win_message s"
proof -
  obtain h' where p: "physics s = Inr (pocket_step (s\<lparr>heap := h'\<rparr>))"
    using physics_Inr [of s] by blast
  then have s1: "s1 = pocket_step (s\<lparr>heap := h'\<rparr>)" using assms by simp
  show "shots_taken s1 = shots_taken s" "requests s1 = requests s"
    by (simp_all add: s1 pocket_step_state)
  show "game_over s \<Longrightarrow> game_over s1"
    by (simp add: s1 pocket_step_state)
  show "\<not> game_over s1 \<Longrightarrow> win_message s1 = win_message s"
    by (auto simp: s1 pocket_step_state)
qed

lemma turn_fields:
  "game_over s \<Longrightarrow> turn reply s = s"
  "\<not> at_rest s \<Longrightarrow> turn reply s = s"
  "at_rest s \<Longrightarrow> \<not> game_over s \<Longrightarrow> shots_taken s < MAX_SHOTS \<Longrightarrow> turn reply s = take_shot reply s"
  "at_rest s \<Longrightarrow> \<not> game_over s \<Longrightarrow> \<not> shots_taken s < MAX_SHOTS \<Longrightarrow> turn reply s = finish s"
  by (simp_all add: turn_def finish_def)

lemma take_shot_fields:
  "shots_taken (take_shot reply s) = shots_taken s + 1"
  "requests (take_shot reply s) = requests s + 1"
  "game_over (take_shot reply s) = game_over s"
  "win_message (take_shot reply s) = win_message s"
  "balls (take_shot reply s) = balls s"
  by (simp_all add: take_shot_def Let_def)

lemma finish_result:
  "\<not> game_over s \<Longrightarrow> win_message s = None \<Longrightarrow>
   finish s = s\<lparr>game_over := True,
                win_message := Some (if list_ex (\<lambda>b. is_black (heap s b)) (balls s) then LOSE else CLEARED)\<rparr>"
  by (simp add: finish_def)

lemma turn_inv: "session_inv s \<Longrightarrow> session_inv (turn reply s)"
proof -
  assume inv: "session_inv s"
  consider "game_over s \<or> \<not> at_rest s"
    | "at_rest s" "\<not> game_over s" "shots_taken s < MAX_SHOTS"
    | "at_rest s" "\<not> game_over s" "\<not> shots_taken s < MAX_SHOTS"
    by blast
  then show ?thesis
  proof cases
    case 1
    then have "turn reply s = s" using turn_fields(1,2) by blast
    then show ?thesis using inv by simp
  next
    case 2
    then show ?thesis
      using inv by (simp add: turn_fields(3) session_inv_def take_shot_fields)
  next
    case 3
    then show ?thesis
      using inv by (simp add: turn_fields(4) session_inv_def finish_def Let_def)
  qed
qed

lemma physics_inv: "session_inv s \<Longrightarrow> physics s = Inr s1 \<Longrightarrow> session_inv s1"
  using physics_fields [of s s1]
  by (auto simp: session_inv_def split: if_splits)

lemma tick_inv: "session_inv s \<Longrightarrow> tick reply s = Inr s' \<Longrightarrow> session_inv s'"
proof (cases "game_over s")
  case True
  then show "session_inv s \<Longrightarrow> tick reply s = Inr s' \<Longrightarrow> session_inv s'"
    by (simp add: tick_game_over)
next
  case False
  obtain s1 where s1: "physics s = Inr s1" using physics_Inr [of s] by blast
  assume "session_inv s" "tick reply s = Inr s'"
  then show "session_inv s'"
    using False s1 physics_inv [OF _ s1] turn_inv [of s1 reply] by (simp add: tick_def)
qed

lemma reachable_inv: "reachable s \<Longrightarrow> session_inv s"
proof (induction rule: reachable.induct)
  case (init rnd)
  show ?case by (simp add: session_inv_def main_init_def)
next
  case (frame s reply s')
  then show ?case using tick_inv by blast
qed

text \<open>
  Claim C4. \<open>MAX_SHOTS\<close> is 10. In a session of \<^verbatim>\<open>main\<close> that is not over and has taken its
  10 shots, a frame whose physics pots no black ball and leaves every live ball at rest
  ends the game: \<open>game_over\<close> is set, with the lose outcome when a black ball is in the live
  list and the cleared outcome otherwise. From then on every frame leaves the session as
  it is: no shot is requested again, and the number of requests stays 10.
\<close>

theorem shot_budget_exhausted:
  assumes "reachable s" "\<not> game_over s" "shots_taken s = MAX_SHOTS"
    and "physics s = Inr s1" "\<not> game_over s1" "at_rest s1"
  shows "MAX_SHOTS = 10
    \<and> tick reply s =
        Inr (s1\<lparr>game_over := True,
               win_message := Some (if list_ex (\<lambda>b. is_black (heap s1 b)) (balls s1)
                                    then LOSE else CLEARED)\<rparr>)
    \<and> (\<exists>s2. tick reply s = Inr s2 \<and> game_over s2 \<and> requests s2 = MAX_SHOTS
            \<and> run advisor n s2 = Inr s2)"
proof -
  have inv: "session_inv s" using assms(1) by (rule reachable_inv)
  have inv1: "session_inv s1" using inv assms(4) by (rule physics_inv)
  then have win: "win_message s1 = None" using assms(5) by (simp add: session_inv_def)
  have shots: "shots_taken s1 = MAX_SHOTS" "requests s1 = MAX_SHOTS"
    using physics_fields(1,2) [OF assms(4)] assms(3) inv by (simp_all add: session_inv_def)
  let ?s2 = "s1\<lparr>game_over := True,
               win_message := Some (if list_ex (\<lambda>b. is_black (heap s1 b)) (balls s1)
                                    then LOSE else CLEARED)\<rparr>"
  have "turn reply s1 = finish s1"
    using assms(5,6) shots by (simp add: turn_fields(4))
  then have t: "tick reply s = Inr ?s2"
    using assms(2,4,5) win by (simp add: tick_def finish_result)
  have "game_over ?s2" "requests ?s2 = MAX_SHOTS"
    using shots by simp_all
  moreover have "run advisor n ?s2 = Inr ?s2"
    by (rule run_game_over) simp
  ultimately show ?thesis
    using t by (simp add: MAX_SHOTS_def)
qed

section \<open>A session that uses up its shots\<close>

lemma call_llm_zero: "call_llm zero_power_reply fb = (0, 0)"
  by (simp add: zero_power_reply_def call_llm_def call_llm_try_def chat_completion_def get_content_def
      re_search_def match_at_def lit_def spaces_def num_group_def is_space_def is_num_char_def
      is_digit_def py_float_def unsigned_float_def digits_val_def digit_val_def py_mod_def)

lemma update_still:
  assumes "vx b = 0" "vy b = 0" "BALL_RADIUS \<le> x b" "x b \<le> WIDTH - BALL_RADIUS"
    "BALL_RADIUS \<le> y b" "y b \<le> HEIGHT - BALL_RADIUS"
  shows "update b = b"
  using assms by (simp add: update_def reflect_y_def reflect_x_def apply_friction_def move_def)

lemma update_all_still: "\<forall>b\<in>set bs. update (h b) = h b \<Longrightarrow> update_all bs h = h"
  unfolding update_all_def by (induction bs) simp_all

lemma for_each_unchanged: "\<forall>a\<in>set as. body a s = Inr s \<Longrightarrow> for_each as body s = Inr s"
  by (induction as) simp_all

lemma collide_apart:
  assumes "576 \<le> (x (h b2) - x (h b1))\<^sup>2 + (y (h b2) - y (h b1))\<^sup>2"
  shows "collide b1 b2 h = Inr h"
proof -
  let ?d = "hypot (x (h b2) - x (h b1)) (y (h b2) - y (h b1))"
  have "sqrt 576 \<le> ?d"
    unfolding hypot_def using assms by (simp only: real_sqrt_le_iff)
  moreover have "sqrt 576 = 24" using real_sqrt_abs [of 24] by simp
  ultimately have "24 \<le> ?d" by simp
  then have "\<not> guarded_dist (x (h b2) - x (h b1)) (y (h b2) - y (h b1)) < 2 * BALL_RADIUS"
    by (simp add: guarded_dist_def BALL_RADIUS_def)
  then show ?thesis by (simp add: collide_Inr Let_def)
qed

lemma handle_collisions_apart:
  assumes "distinct bs"
    and "\<forall>b1\<in>set bs. \<forall>b2\<in>set bs. b1 \<noteq> b2 \<longrightarrow>
            576 \<le> (x (h b2) - x (h b1))\<^sup>2 + (y (h b2) - y (h b1))\<^sup>2"
  shows "handle_collisions bs h = Inr h"
  unfolding handle_collisions_def
proof (intro for_each_unchanged ballI)
  fix i j
  assume "i \<in> set [0..<length bs]" "j \<in> set [i + 1..<length bs]"
  then have ij: "i < length bs" "j < length bs" "i \<noteq> j" by auto
  then have "bs ! i \<noteq> bs ! j" using assms(1) by (simp add: nth_eq_iff_index_eq)
  then show "collide (bs ! i) (bs ! j) h = Inr h"
    using assms(2) ij by (intro collide_apart) simp
qed

lemma pocket_step_nothing_potted:
  assumes "\<forall>b\<in>set (balls s). \<not> potted (heap s b)"
  shows "pocket_step s = s"
proof (rule session.equality)
  show "heap (pocket_step s) = heap s"
    using assms by (auto simp: fun_eq_iff pocket_step_state potted_cue_def)
  have "filter (\<lambda>r. \<not> potted_object (heap s r)) (balls s) = balls s"
    using assms by (intro filter_True) (simp add: potted_object_def)
  then show "balls (pocket_step s) = balls s"
    by (simp add: pocket_step_balls)
  show "game_over (pocket_step s) = game_over s" "win_message (pocket_step s) = win_message s"
    using assms by (auto simp: pocket_step_state potted_black_def)
qed (simp_all add: pocket_step_state)

lemma physics_quiet: "quiet s \<Longrightarrow> physics s = Inr s"
proof -
  assume q: "quiet s"
  have u: "update_all (balls s) (heap s) = heap s"
    using q by (intro update_all_still ballI update_still) (simp_all add: quiet_def)
  have c: "handle_collisions (balls s) (heap s) = Inr (heap s)"
    using q by (intro handle_collisions_apart) (simp_all add: quiet_def)
  have p: "pocket_step s = s"
    using q by (intro pocket_step_nothing_potted) (simp add: quiet_def)
  show ?thesis by (simp add: physics_def u c p)
qed

lemma quiet_at_rest: "quiet s \<Longrightarrow> at_rest s"
  by (simp add: quiet_def at_rest_def list_ex_iff is_moving_def)

lemma take_shot_zero:
  assumes "quiet s" "cue_ball s \<in> set (balls s)"
  shows "take_shot zero_power_reply s = s\<lparr>shots_taken := shots_taken s + 1, requests := requests s + 1\<rparr>"
proof -
  have "vx (heap s (cue_ball s)) = 0" "vy (heap s (cue_ball s)) = 0"
    using assms by (simp_all add: quiet_def)
  then have "apply_shot (0, 0) (cue_ball s) (heap s) = heap s"
    by (simp add: apply_shot_def set_vx_def set_vy_def Let_def fun_eq_iff)
  then show ?thesis
    by (simp add: take_shot_def Let_def call_llm_zero)
qed

lemma tick_quiet:
  assumes "quiet s" "cue_ball s \<in> set (balls s)" "\<not> game_over s" "shots_taken s < MAX_SHOTS"
  shows "tick zero_power_reply s =
    Inr (s\<lparr>shots_taken := shots_taken s + 1, requests := requests s + 1\<rparr>)"
  using assms
  by (simp add: tick_def physics_quiet turn_fields(3) quiet_at_rest take_shot_zero)

lemma still_session_fields:
  "balls (still_session k) = [0, 1, 2, 3, 4, 5, 6]" "cue_ball (still_session k) = 0"
  "shots_taken (still_session k) = k" "requests (still_session k) = k"
  "\<not> game_over (still_session k)" "win_message (still_session k) = None"
  "heap (still_session k) = main_heap still_offsets"
  by (simp_all add: still_session_def main_init_def upt_rec)

lemma still_heap:
  "main_heap still_offsets 0 = new_Ball 200 200 (255, 255, 255) True False"
  "main_heap still_offsets 1 = new_Ball 600 200 (0, 0, 0) False True"
  "main_heap still_offsets (Suc 0) = new_Ball 600 200 (0, 0, 0) False True"
  "main_heap still_offsets 2 = new_Ball 560 160 (220, 20, 60) False False"
  "main_heap still_offsets 3 = new_Ball 640 160 (30, 144, 255) False False"
  "main_heap still_offsets 4 = new_Ball 560 240 (255, 215, 0) False False"
  "main_heap still_offsets 5 = new_Ball 640 240 (255, 0, 255) False False"
  "main_heap still_offsets 6 = new_Ball 600 240 (0, 255, 255) False False"
  by (simp_all add: main_heap_def still_offsets_def colors_def)

lemma still_session_quiet: "quiet (still_session k)"
  unfolding quiet_def still_session_fields
  by (simp add: still_heap new_Ball_def potted_def in_pocket_iff pockets_def table_defs)

lemma still_session_step:
  assumes "k < MAX_SHOTS"
  shows "tick zero_power_reply (still_session k) = Inr (still_session (Suc k))"
proof -
  have "cue_ball (still_session k) \<in> set (balls (still_session k))"
    "\<not> game_over (still_session k)" "shots_taken (still_session k) < MAX_SHOTS"
    using assms by (simp_all add: still_session_fields)
  then have "tick zero_power_reply (still_session k) =
      Inr ((still_session k)\<lparr>shots_taken := shots_taken (still_session k) + 1,
                               requests := requests (still_session k) + 1\<rparr>)"
    by (rule tick_quiet [OF still_session_quiet])
  then show ?thesis
    by (simp add: still_session_def)
qed

lemma still_session_reachable: "k \<le> MAX_SHOTS \<Longrightarrow> reachable (still_session k)"
proof (induction k)
  case 0
  have "still_session 0 = main_init still_offsets"
    by (simp add: still_session_def main_init_def)
  then show ?case by (simp add: reachable.init)
next
  case (Suc k)
  then have "reachable (still_session k)" "k < MAX_SHOTS" by simp_all
  then show ?case
    using still_session_step [of k] by (blast intro: reachable.frame)
qed

text \<open>
  The still session after 10 shots of power zero is a session of \<^verbatim>\<open>main\<close> that meets the
  hypotheses of claim C4; the black ball is on the table, so the game is lost.
\<close>

theorem shot_budget_exhausted_witness:
  "reachable (still_session 10) \<and> \<not> game_over (still_session 10)
   \<and> shots_taken (still_session 10) = MAX_SHOTS
   \<and> physics (still_session 10) = Inr (still_session 10)
   \<and> at_rest (still_session 10)
   \<and> list_ex (\<lambda>b. is_black (heap (still_session 10) b)) (balls (still_session 10))
   \<and> tick PostRaises (still_session 10) =
       Inr ((still_session 10)\<lparr>game_over := True, win_message := Some LOSE\<rparr>)
   \<and> (\<exists>s2. tick PostRaises (still_session 10) = Inr s2 \<and> game_over s2
          \<and> requests s2 = MAX_SHOTS \<and> run (\<lambda>k. PostRaises) 100 s2 = Inr s2)"
proof -
  let ?s = "still_session 10"
  have r: "reachable ?s" by (rule still_session_reachable) (simp add: MAX_SHOTS_def)
  have g: "\<not> game_over ?s" and n: "shots_taken ?s = MAX_SHOTS"
    by (simp_all add: still_session_fields MAX_SHOTS_def)
  have p: "physics ?s = Inr ?s" using still_session_quiet by (rule physics_quiet)
  have a: "at_rest ?s" using still_session_quiet by (rule quiet_at_rest)
  have b: "list_ex (\<lambda>b. is_black (heap ?s b)) (balls ?s)"
    by (simp add: still_session_fields still_heap new_Ball_def)
  note th = shot_budget_exhausted [OF r g n p g a, of PostRaises "\<lambda>k. PostRaises" 100]
  have t: "tick PostRaises ?s = Inr (?s\<lparr>game_over := True, win_message := Some LOSE\<rparr>)"
    using th [THEN conjunct2, THEN conjunct1] by (simp only: b if_True)
  have e: "\<exists>s2. tick PostRaises ?s = Inr s2 \<and> game_over s2
          \<and> requests s2 = MAX_SHOTS \<and> run (\<lambda>k. PostRaises) 100 s2 = Inr s2"
    using th by blast
  show ?thesis
    using r g n p a b t e by blast
qed

end
